theory Spec2Isabelle
  imports Complex_Main "HOL-Library.Sublist" "HOL-Library.Char_ord" "HOL-Library.List_Lexorder"
begin

section \<open>The archive interface consumed by \<open>extract_temperature.py\<close>\<close>

text \<open>
  The Abaqus objects the script reads are modelled by the attributes it touches.
  Repositories (\<open>odb.steps\<close>, \<open>rootAssembly.instances\<close>, \<open>rootAssembly.nodeSets\<close>,
  \<open>frame.fieldOutputs\<close>) are association lists: \<open>name in repo\<close> is
  \<open>map_of repo name \<noteq> None\<close>, \<open>repo[name]\<close> is \<open>map_of repo name\<close>, \<open>repo.keys()\<close> is
  \<open>map fst repo\<close> and \<open>repo.values()\<close> is \<open>map snd repo\<close>.
  Python floats (step times, coordinates, field data) are modelled as reals; only their
  order and equality are ever used by the script, and NaN is outside the model.
\<close>

type_synonym Coordinates = "real \<times> real \<times> real"

record node =
  label :: int
  coordinates :: Coordinates

record part_instance =
  inst_name :: string
  nodes :: "node list"

datatype node_set = NodeSet (set_name: string) (set_nodes: "(string \<times> int) list")

record field_value =
  instance_name :: string
  nodeLabel :: int
  data :: real

text \<open>\<open>field.getSubset(region=node_set, position=NODAL).values\<close> for \<open>Some node_set\<close>,
  \<open>field.getSubset(position=NODAL).values\<close> for \<open>None\<close>; what the archive answers is
  left entirely to the archive.\<close>

datatype field_output = FieldOutput (getSubset: "node_set option \<Rightarrow> field_value list")

record frame =
  frameValue :: real
  fieldOutputs :: "(string \<times> field_output) list"

record step =
  frames :: "frame list"

record root_assembly =
  instances :: "(string \<times> part_instance) list"
  nodeSets :: "(string \<times> node_set) list"

record odb =
  steps :: "(string \<times> step) list"
  rootAssembly :: root_assembly

section \<open>Errors, output rows and the observable trace\<close>

datatype key = KStr string | KInt int

datatype error = ValueError string | SystemExit string | KeyError key

datatype cell = CInt int | CFloat real | CStr string

type_synonym row = "cell list"

text \<open>
  Every call the script makes on the outside world is recorded, in program order:
  \<open>openOdb\<close>, \<open>odb.close()\<close>, the read \<open>frame.fieldOutputs[field_variable]\<close> of
  frame \<open>i\<close>, \<open>open(path, "w")\<close> returning file object \<open>h\<close>, the header
  \<open>writerow\<close> of \<open>_open_writer\<close>, the data \<open>writerow\<close> of the extraction loop, and
  \<open>handle.close()\<close>.
\<close>

datatype event =
    OpenOdb string
  | CloseOdb
  | ReadField nat
  | OpenFile nat string
  | WriteHeader nat row
  | WriteRow nat row
  | CloseFile nat

text \<open>The mutable locals of \<open>export_temperatures\<close>: the dict \<open>writer_handles\<close> (in
  insertion order), a counter naming the next fresh file object, and the trace so far.\<close>

record state =
  writer_handles :: "(string \<times> nat) list"
  next_handle :: nat
  trace :: "event list"

text \<open>The parts of the \<open>os\<close> module the script uses: \<open>os.sep\<close> and
  \<open>os.path.splitext\<close>. They belong to the Python runtime and are parameters here.\<close>

record os =
  sep :: char
  splitext :: "string \<Rightarrow> string \<times> string"

record config =
  odb_path :: string
  output_csv :: string
  step_name :: string
  node_sets :: "string list option"
  field_variable :: string
  start_time :: "real option"
  end_time :: "real option"
  frame_stride :: int
  split_by_node_set :: bool

section \<open>String helpers\<close>

text \<open>\<open>sep.join(xs)\<close>.\<close>

fun join :: "string \<Rightarrow> string list \<Rightarrow> string" where
  "join s [] = []"
| "join s [x] = x"
| "join s (x # y # ys) = x @ s @ join s (y # ys)"

text \<open>The decimal rendering of a frame index inside an f-string.\<close>

fun str_nat :: "nat \<Rightarrow> string" where
  "str_nat n =
     (if n < 10 then [''0123456789'' ! n]
      else str_nat (n div 10) @ [''0123456789'' ! (n mod 10)])"

declare str_nat.simps [simp del]

section \<open>The script\<close>

text \<open>\<open>_build_coordinate_cache\<close>: later nodes with the same label, and later instances
  with the same name, overwrite earlier ones, as dict assignment does.\<close>

definition build_coordinate_cache ::
  "part_instance list \<Rightarrow> (string \<rightharpoonup> (int \<rightharpoonup> Coordinates))" where
  "build_coordinate_cache insts =
     foldl (\<lambda>cache i.
              cache(inst_name i \<mapsto>
                foldl (\<lambda>coord_map n. coord_map(label n \<mapsto> coordinates n)) Map.empty (nodes i)))
           Map.empty insts"

text \<open>\<open>_resolve_node_sets\<close>: the first requested name missing from the catalog raises.\<close>

fun resolve_node_sets ::
  "root_assembly \<Rightarrow> string list \<Rightarrow> error + node_set list" where
  "resolve_node_sets ra [] = Inr []"
| "resolve_node_sets ra (n # ns) =
     (case map_of (nodeSets ra) n of
        None \<Rightarrow>
          Inl (SystemExit (''Node set '' @ [CHR 0x27] @ n @ [CHR 0x27]
                 @ '' not found in the ODB. Available sets: ''
                 @ join '', '' (sort (map fst (nodeSets ra)))))
      | Some r \<Rightarrow>
          (case resolve_node_sets ra ns of
             Inl e \<Rightarrow> Inl e
           | Inr rs \<Rightarrow> Inr (r # rs)))"

text \<open>\<open>_open_writer\<close>: a fresh file object on \<open>path\<close>, opened in mode \<open>"w"\<close>, with the
  header written at once. (\<open>os.makedirs\<close> is not modelled.)\<close>

definition open_writer :: "string \<Rightarrow> row \<Rightarrow> state \<Rightarrow> nat \<times> state" where
  "open_writer path header s =
     (let h = next_handle s in
      (h, s\<lparr>next_handle := Suc h,
             trace := trace s @ [OpenFile h path, WriteHeader h header]\<rparr>))"

definition header_row :: "string \<Rightarrow> row" where
  "header_row fv =
     [CStr ''frame_index'', CStr ''step_time'', CStr ''node_set'', CStr ''instance'',
      CStr ''node_label'', CStr ''x'', CStr ''y'', CStr ''z'', CStr fv]"

text \<open>\<open>set_name.replace(os.sep, "_").replace(" ", "_")\<close>; \<open>os.sep\<close> is one character.\<close>

definition safe_name :: "char \<Rightarrow> string \<Rightarrow> string" where
  "safe_name sp n =
     map (\<lambda>c. if c = CHR '' '' then CHR ''_'' else c)
         (map (\<lambda>c. if c = sp then CHR ''_'' else c) n)"

text \<open>The two closures named \<open>get_writer\<close>, with the variables they capture: in split
  mode \<open>os.sep\<close>, \<open>base\<close>, \<open>ext\<close> and \<open>header\<close>; otherwise \<open>base_writer\<close>.\<close>

datatype writer_closure =
    SplitWriter char string string row
  | BaseWriter nat

fun get_writer :: "writer_closure \<Rightarrow> string \<Rightarrow> state \<Rightarrow> nat \<times> state" where
  "get_writer (SplitWriter sp base ext header) n s =
     (let path = base @ ''__'' @ safe_name sp n @ ext in
      case map_of (writer_handles s) n of
        None \<Rightarrow>
          (case open_writer path header s of
             (h, s') \<Rightarrow> (h, s'\<lparr>writer_handles := writer_handles s' @ [(n, h)]\<rparr>))
      | Some h \<Rightarrow> (h, s))"
| "get_writer (BaseWriter base_writer) n s = (base_writer, s)"

definition data_row ::
  "nat \<Rightarrow> real \<Rightarrow> string \<Rightarrow> field_value \<Rightarrow> Coordinates \<Rightarrow> row" where
  "data_row frame_index current_time region_name v coords =
     (case coords of (x, y, z) \<Rightarrow>
        [CInt (int frame_index), CFloat current_time, CStr region_name,
         CStr (instance_name v), CInt (nodeLabel v),
         CFloat x, CFloat y, CFloat z, CFloat (data v)])"

text \<open>\<open>for value in subset.values\<close> (lines 138 to 154).\<close>

fun values_loop ::
  "writer_closure \<Rightarrow> (string \<rightharpoonup> (int \<rightharpoonup> Coordinates)) \<Rightarrow>
   nat \<Rightarrow> real \<Rightarrow> string \<Rightarrow> field_value list \<Rightarrow> state \<Rightarrow> error option \<times> state" where
  "values_loop gw cc fi t rn [] s = (None, s)"
| "values_loop gw cc fi t rn (v # vs) s =
     (case cc (instance_name v) of
        None \<Rightarrow> (Some (KeyError (KStr (instance_name v))), s)
      | Some cm \<Rightarrow>
          (case cm (nodeLabel v) of
             None \<Rightarrow> (Some (KeyError (KInt (nodeLabel v))), s)
           | Some coords \<Rightarrow>
               (case get_writer gw rn s of
                  (w, s1) \<Rightarrow>
                    values_loop gw cc fi t rn vs
                      (s1\<lparr>trace := trace s1 @ [WriteRow w (data_row fi t rn v coords)]\<rparr>))))"

text \<open>\<open>region_iter\<close>: the resolved node sets in order, or the single pseudo-region
  \<open>"ALL"\<close> when \<open>regions\<close> is \<open>None\<close> (or empty).\<close>

definition region_iter ::
  "node_set list option \<Rightarrow> field_output \<Rightarrow> (string \<times> field_value list) list" where
  "region_iter regions field =
     (case regions of
        None \<Rightarrow> [(''ALL'', getSubset field None)]
      | Some [] \<Rightarrow> [(''ALL'', getSubset field None)]
      | Some rs \<Rightarrow> map (\<lambda>ns. (set_name ns, getSubset field (Some ns))) rs)"

text \<open>\<open>for region_name, subset in region_iter\<close> (line 137).\<close>

fun regions_loop ::
  "writer_closure \<Rightarrow> (string \<rightharpoonup> (int \<rightharpoonup> Coordinates)) \<Rightarrow>
   nat \<Rightarrow> real \<Rightarrow> (string \<times> field_value list) list \<Rightarrow> state \<Rightarrow> error option \<times> state" where
  "regions_loop gw cc fi t [] s = (None, s)"
| "regions_loop gw cc fi t ((rn, vals) # rest) s =
     (case values_loop gw cc fi t rn vals s of
        (Some e, s') \<Rightarrow> (Some e, s')
      | (None, s') \<Rightarrow> regions_loop gw cc fi t rest s')"

definition missing_field_msg :: "config \<Rightarrow> nat \<Rightarrow> string" where
  "missing_field_msg cfg frame_index =
     ''Field '' @ [CHR 0x27] @ field_variable cfg @ [CHR 0x27] @ '' not stored in frame ''
     @ str_nat frame_index @ '' of step '' @ [CHR 0x27] @ step_name cfg @ [CHR 0x27] @ ''.''"

text \<open>\<open>for frame_index, frame in enumerate(step.frames)\<close> (lines 114 to 154):
  \<open>continue\<close> is the recursive call on the rest, \<open>break\<close> returns at once, a raise
  returns the error with the state reached.\<close>

fun frames_loop ::
  "config \<Rightarrow> writer_closure \<Rightarrow> (string \<rightharpoonup> (int \<rightharpoonup> Coordinates)) \<Rightarrow>
   node_set list option \<Rightarrow> nat \<Rightarrow> frame list \<Rightarrow> state \<Rightarrow> error option \<times> state" where
  "frames_loop cfg gw cc regions frame_index [] s = (None, s)"
| "frames_loop cfg gw cc regions frame_index (f # fs) s =
     (if int frame_index mod frame_stride cfg \<noteq> 0
      then frames_loop cfg gw cc regions (Suc frame_index) fs s
      else
        let current_time = frameValue f in
        if (case start_time cfg of None \<Rightarrow> False | Some st \<Rightarrow> current_time < st)
        then frames_loop cfg gw cc regions (Suc frame_index) fs s
        else if (case end_time cfg of None \<Rightarrow> False | Some et \<Rightarrow> current_time > et)
        then (None, s)
        else
          (case map_of (fieldOutputs f) (field_variable cfg) of
             None \<Rightarrow> (Some (SystemExit (missing_field_msg cfg frame_index)), s)
           | Some field \<Rightarrow>
               (case regions_loop gw cc frame_index current_time (region_iter regions field)
                       (s\<lparr>trace := trace s @ [ReadField frame_index]\<rparr>) of
                  (Some e, s') \<Rightarrow> (Some e, s')
                | (None, s') \<Rightarrow> frames_loop cfg gw cc regions (Suc frame_index) fs s')))"

text \<open>The \<open>finally\<close> block: every handle of \<open>writer_handles\<close> is closed, then the archive.\<close>

definition finally_block :: "state \<Rightarrow> event list" where
  "finally_block s = trace s @ map (\<lambda>(n, h). CloseFile h) (writer_handles s) @ [CloseOdb]"

definition unknown_step_msg :: "config \<Rightarrow> odb \<Rightarrow> string" where
  "unknown_step_msg cfg archive =
     ''Step '' @ [CHR 0x27] @ step_name cfg @ [CHR 0x27] @ '' not found in ODB ''
     @ [CHR 0x27] @ odb_path cfg @ [CHR 0x27] @ ''. Available steps: ''
     @ join '', '' (sort (map fst (steps archive)))"

text \<open>Lines 85 to 87: \<open>regions\<close> stays \<open>None\<close> when \<open>node_sets\<close> is \<open>None\<close> or empty.\<close>

definition requested_regions ::
  "root_assembly \<Rightarrow> config \<Rightarrow> error + node_set list option" where
  "requested_regions ra cfg =
     (case node_sets cfg of
        None \<Rightarrow> Inr None
      | Some [] \<Rightarrow> Inr None
      | Some ns \<Rightarrow>
          (case resolve_node_sets ra ns of
             Inl err \<Rightarrow> Inl err
           | Inr rs \<Rightarrow> Inr (Some rs)))"

text \<open>Lines 95 to 112: the choice of \<open>get_writer\<close>. Split mode opens nothing yet;
  otherwise the single sink is opened and registered under \<open>"__all__"\<close>.\<close>

definition make_get_writer ::
  "os \<Rightarrow> config \<Rightarrow> row \<Rightarrow> state \<Rightarrow> writer_closure \<times> state" where
  "make_get_writer e cfg header s0 =
     (if split_by_node_set cfg
      then
        (case splitext e (output_csv cfg) of
           (base, ext) \<Rightarrow>
             (SplitWriter (sep e) base (if ext = [] then ''.csv'' else ext) header, s0))
      else
        (case open_writer (output_csv cfg) header s0 of
           (h, s') \<Rightarrow> (BaseWriter h, s'\<lparr>writer_handles := [(''__all__'', h)]\<rparr>)))"

text \<open>\<open>export_temperatures\<close>, given the runtime's \<open>os\<close> and the archive that
  \<open>openOdb(odb_path)\<close> returns. The result is the exception that escapes (if any) and
  the trace of the whole call.\<close>

definition export_temperatures ::
  "os \<Rightarrow> odb \<Rightarrow> config \<Rightarrow> error option \<times> event list" where
  "export_temperatures e archive cfg =
     (if frame_stride cfg < 1
      then (Some (ValueError ''frame_stride must be >= 1''), [])
      else
        let tr0 = [OpenOdb (odb_path cfg)];
            ra = rootAssembly archive
        in
        case map_of (steps archive) (step_name cfg) of
          None \<Rightarrow> (Some (SystemExit (unknown_step_msg cfg archive)), tr0)
        | Some stp \<Rightarrow>
            (case requested_regions ra cfg of
               Inl err \<Rightarrow> (Some err, tr0)
             | Inr regions \<Rightarrow>
                 let cc = build_coordinate_cache (map snd (instances ra));
                     header = header_row (field_variable cfg);
                     s0 = \<lparr>writer_handles = [], next_handle = 0, trace = tr0\<rparr>;
                     (gw, s1) = make_get_writer e cfg header s0;
                     (err, s2) = frames_loop cfg gw cc regions 0 (frames stp) s1
                 in (err, finally_block s2)))"

section \<open>Reading a trace\<close>

text \<open>The frames whose field data was read, the data rows written, and the files
  opened, each in program order.\<close>

fun read_frames :: "event list \<Rightarrow> nat list" where
  "read_frames [] = []"
| "read_frames (ReadField i # es) = i # read_frames es"
| "read_frames (_ # es) = read_frames es"

fun data_rows :: "event list \<Rightarrow> row list" where
  "data_rows [] = []"
| "data_rows (WriteRow h r # es) = r # data_rows es"
| "data_rows (_ # es) = data_rows es"

fun opened_files :: "event list \<Rightarrow> string list" where
  "opened_files [] = []"
| "opened_files (OpenFile h p # es) = p # opened_files es"
| "opened_files (_ # es) = opened_files es"

section \<open>The loops as one pass over a work list\<close>

text \<open>
  The three nested loops visit, in order, a list of work items: reading the field of a
  selected frame, finding the field missing, or emitting one value of one region.
  \<open>plan\<close> builds that list from the frames alone; \<open>exec\<close> runs it.
\<close>

datatype item = Fetch nat | Missing nat | Emit nat real string field_value

definition below_start :: "config \<Rightarrow> real \<Rightarrow> bool" where
  "below_start cfg t = (case start_time cfg of None \<Rightarrow> False | Some st \<Rightarrow> t < st)"

definition above_end :: "config \<Rightarrow> real \<Rightarrow> bool" where
  "above_end cfg t = (case end_time cfg of None \<Rightarrow> False | Some et \<Rightarrow> t > et)"

definition region_items :: "nat \<Rightarrow> real \<Rightarrow> (string \<times> field_value list) list \<Rightarrow> item list" where
  "region_items fi t ri = concat (map (\<lambda>(rn, vals). map (Emit fi t rn) vals) ri)"

fun plan :: "config \<Rightarrow> node_set list option \<Rightarrow> nat \<Rightarrow> frame list \<Rightarrow> item list" where
  "plan cfg regions i [] = []"
| "plan cfg regions i (f # fs) =
     (if int i mod frame_stride cfg \<noteq> 0 then plan cfg regions (Suc i) fs
      else if below_start cfg (frameValue f) then plan cfg regions (Suc i) fs
      else if above_end cfg (frameValue f) then []
      else
        (case map_of (fieldOutputs f) (field_variable cfg) of
           None \<Rightarrow> [Missing i]
         | Some field \<Rightarrow>
             Fetch i # region_items i (frameValue f) (region_iter regions field)
               @ plan cfg regions (Suc i) fs))"

definition lookup_coords ::
  "(string \<rightharpoonup> (int \<rightharpoonup> Coordinates)) \<Rightarrow> field_value \<Rightarrow> key + Coordinates" where
  "lookup_coords cc v =
     (case cc (instance_name v) of
        None \<Rightarrow> Inl (KStr (instance_name v))
      | Some cm \<Rightarrow>
          (case cm (nodeLabel v) of
             None \<Rightarrow> Inl (KInt (nodeLabel v))
           | Some coords \<Rightarrow> Inr coords))"

fun exec ::
  "config \<Rightarrow> writer_closure \<Rightarrow> (string \<rightharpoonup> (int \<rightharpoonup> Coordinates)) \<Rightarrow>
   item list \<Rightarrow> state \<Rightarrow> error option \<times> state" where
  "exec cfg gw cc [] s = (None, s)"
| "exec cfg gw cc (Fetch i # r) s = exec cfg gw cc r (s\<lparr>trace := trace s @ [ReadField i]\<rparr>)"
| "exec cfg gw cc (Missing i # r) s = (Some (SystemExit (missing_field_msg cfg i)), s)"
| "exec cfg gw cc (Emit fi t rn v # r) s =
     (case lookup_coords cc v of
        Inl k \<Rightarrow> (Some (KeyError k), s)
      | Inr coords \<Rightarrow>
          (case get_writer gw rn s of
             (w, s1) \<Rightarrow>
               exec cfg gw cc r
                 (s1\<lparr>trace := trace s1 @ [WriteRow w (data_row fi t rn v coords)]\<rparr>)))"

text \<open>What a work list yields when nothing stops it, which items go through, and the
  error raised by the first one that does not.\<close>

fun item_ok :: "(string \<rightharpoonup> (int \<rightharpoonup> Coordinates)) \<Rightarrow> item \<Rightarrow> bool" where
  "item_ok cc (Fetch i) = True"
| "item_ok cc (Missing i) = False"
| "item_ok cc (Emit fi t rn v) = (case lookup_coords cc v of Inl k \<Rightarrow> False | Inr c \<Rightarrow> True)"

fun item_error :: "config \<Rightarrow> (string \<rightharpoonup> (int \<rightharpoonup> Coordinates)) \<Rightarrow> item \<Rightarrow> error option" where
  "item_error cfg cc (Fetch i) = None"
| "item_error cfg cc (Missing i) = Some (SystemExit (missing_field_msg cfg i))"
| "item_error cfg cc (Emit fi t rn v) =
     (case lookup_coords cc v of Inl k \<Rightarrow> Some (KeyError k) | Inr c \<Rightarrow> None)"

fun fetched :: "item list \<Rightarrow> nat list" where
  "fetched [] = []"
| "fetched (Fetch i # r) = i # fetched r"
| "fetched (_ # r) = fetched r"

fun emitted :: "(string \<rightharpoonup> (int \<rightharpoonup> Coordinates)) \<Rightarrow> item list \<Rightarrow> row list" where
  "emitted cc [] = []"
| "emitted cc (Emit fi t rn v # r) =
     (case lookup_coords cc v of
        Inl k \<Rightarrow> emitted cc r
      | Inr coords \<Rightarrow> data_row fi t rn v coords # emitted cc r)"
| "emitted cc (_ # r) = emitted cc r"

definition first_error ::
  "config \<Rightarrow> (string \<rightharpoonup> (int \<rightharpoonup> Coordinates)) \<Rightarrow> item list \<Rightarrow> error option" where
  "first_error cfg cc items =
     (case dropWhile (item_ok cc) items of [] \<Rightarrow> None | it # _ \<Rightarrow> item_error cfg cc it)"

section \<open>Stride and time window, as the specification words them\<close>

text \<open>A frame time lies in the window when it is not below \<open>start_time\<close> and not above
  \<open>end_time\<close>, each bound counting only when it is set. \<open>selected\<close> lists, in
  increasing order, the frame indices that are multiples of the stride and whose time
  lies in the window; \<open>sel\<close> is the same list computed along the frames from a given
  first index.\<close>

definition in_window :: "config \<Rightarrow> real \<Rightarrow> bool" where
  "in_window cfg t =
     ((case start_time cfg of None \<Rightarrow> True | Some st \<Rightarrow> st \<le> t)
      \<and> (case end_time cfg of None \<Rightarrow> True | Some et \<Rightarrow> t \<le> et))"

definition selected :: "config \<Rightarrow> frame list \<Rightarrow> nat list" where
  "selected cfg fs =
     filter (\<lambda>i. int i mod frame_stride cfg = 0 \<and> in_window cfg (frameValue (fs ! i)))
       [0..<length fs]"

fun sel :: "config \<Rightarrow> nat \<Rightarrow> frame list \<Rightarrow> nat list" where
  "sel cfg i [] = []"
| "sel cfg i (f # fs) =
     (if int i mod frame_stride cfg = 0 \<and> in_window cfg (frameValue f)
      then i # sel cfg (Suc i) fs else sel cfg (Suc i) fs)"

section \<open>A runtime and an archive to run the script on\<close>

text \<open>On POSIX \<open>os.sep\<close> is \<open>"/"\<close> and \<open>os.path.splitext\<close> splits at the last dot of
  the last path component, unless only dots precede it there. The archive has one step
  of ten frames at times 0 to 9, one instance with two nodes, and two node sets.\<close>

definition rfind :: "char \<Rightarrow> string \<Rightarrow> int" where
  "rfind c p =
     (if c \<in> set p then int (length p) - 1 - int (length (takeWhile (\<lambda>x. x \<noteq> c) (rev p)))
      else - 1)"

definition posix_splitext :: "string \<Rightarrow> string \<times> string" where
  "posix_splitext p =
     (let sepIndex = rfind (CHR ''/'') p;
          dotIndex = rfind (CHR ''.'') p
      in if dotIndex > sepIndex
            \<and> list_ex (\<lambda>c. c \<noteq> CHR ''.'')
                 (take (nat (dotIndex - (sepIndex + 1))) (drop (nat (sepIndex + 1)) p))
         then (take (nat dotIndex) p, drop (nat dotIndex) p)
         else (p, []))"

definition posix :: os where
  "posix = \<lparr>sep = CHR ''/'', splitext = posix_splitext\<rparr>"

definition demo_field :: "real \<Rightarrow> field_output" where
  "demo_field d =
     FieldOutput (\<lambda>r. case r of
        None \<Rightarrow> [\<lparr>instance_name = ''PART-1'', nodeLabel = 7, data = d\<rparr>]
      | Some ns \<Rightarrow> map (\<lambda>(i, l). \<lparr>instance_name = i, nodeLabel = l, data = d\<rparr>) (set_nodes ns))"

definition demo_step :: step where
  "demo_step =
     \<lparr>frames = map (\<lambda>t. \<lparr>frameValue = t, fieldOutputs = [(''NT11'', demo_field (300 + t))]\<rparr>)
                 [0, 1, 2, 3, 4, 5, 6, 7, 8, 9]\<rparr>"

definition demo_assembly :: root_assembly where
  "demo_assembly =
     \<lparr>instances = [(''PART-1'', \<lparr>inst_name = ''PART-1'',
                                  nodes = [\<lparr>label = 7, coordinates = (1, 2, 3)\<rparr>,
                                           \<lparr>label = 8, coordinates = (4, 5, 6)\<rparr>]\<rparr>)],
      nodeSets = [(''B'', NodeSet ''B'' [(''PART-1'', 8)]), (''A'', NodeSet ''A'' [(''PART-1'', 7)])]\<rparr>"

definition demo_odb :: odb where
  "demo_odb = \<lparr>steps = [(''HeatStep'', demo_step)], rootAssembly = demo_assembly\<rparr>"

definition demo_cfg :: config where
  "demo_cfg =
     \<lparr>odb_path = ''Job-4.odb'', output_csv = ''out.csv'', step_name = ''HeatStep'',
      node_sets = None, field_variable = ''NT11'', start_time = Some 2, end_time = Some 7,
      frame_stride = 3, split_by_node_set = False\<rparr>"


definition demo_frame :: "real \<Rightarrow> frame" where
  "demo_frame t = \<lparr>frameValue = t, fieldOutputs = [(''NT11'', demo_field (300 + t))]\<rparr>"

definition bare_frame :: "real \<Rightarrow> frame" where
  "bare_frame t = \<lparr>frameValue = t, fieldOutputs = []\<rparr>"

definition odb_of :: "frame list \<Rightarrow> odb" where
  "odb_of fs = \<lparr>steps = [(''HeatStep'', \<lparr>frames = fs\<rparr>)], rootAssembly = demo_assembly\<rparr>"

definition plain_cfg :: config where
  "plain_cfg =
     \<lparr>odb_path = ''Job-4.odb'', output_csv = ''out.csv'', step_name = ''HeatStep'',
      node_sets = None, field_variable = ''NT11'', start_time = None, end_time = None,
      frame_stride = 1, split_by_node_set = False\<rparr>"

section \<open>Reading rows and work items\<close>

text \<open>The frame a work item belongs to, and the first and third cell of a data row.\<close>

fun item_index :: "item \<Rightarrow> nat" where
  "item_index (Fetch i) = i"
| "item_index (Missing i) = i"
| "item_index (Emit fi t rn v) = fi"

fun row_frame_index :: "row \<Rightarrow> int" where
  "row_frame_index (CInt i # cs) = i"
| "row_frame_index cs = - 1"

fun row_region :: "row \<Rightarrow> string" where
  "row_region (a # b # CStr rn # cs) = rn"
| "row_region cs = []"

section \<open>The files a trace leaves behind\<close>

text \<open>
  Replaying a trace on an empty file system: \<open>open(path, "w")\<close> binds the file object
  to the path and truncates the file, and each \<open>writerow\<close> appends a record to the
  file its file object is bound to. Writes are taken to reach the file at once (no
  buffering), and two file objects on one path write to the same file.
\<close>

fun fs_step ::
  "event \<Rightarrow> (nat \<rightharpoonup> string) \<times> (string \<rightharpoonup> row list) \<Rightarrow> (nat \<rightharpoonup> string) \<times> (string \<rightharpoonup> row list)" where
  "fs_step (OpenFile h p) (hm, files) = (hm(h \<mapsto> p), files(p \<mapsto> []))"
| "fs_step (WriteHeader h r) (hm, files) =
     (case hm h of
        None \<Rightarrow> (hm, files)
      | Some p \<Rightarrow> (hm, files(p \<mapsto> (case files p of None \<Rightarrow> [r] | Some rows \<Rightarrow> rows @ [r]))))"
| "fs_step (WriteRow h r) (hm, files) =
     (case hm h of
        None \<Rightarrow> (hm, files)
      | Some p \<Rightarrow> (hm, files(p \<mapsto> (case files p of None \<Rightarrow> [r] | Some rows \<Rightarrow> rows @ [r]))))"
| "fs_step ev (hm, files) = (hm, files)"

definition file_system :: "event list \<Rightarrow> (string \<rightharpoonup> row list)" where
  "file_system tr = snd (foldl (\<lambda>st ev. fs_step ev st) (Map.empty, Map.empty) tr)"



section \<open>What the claims speak about\<close>

text \<open>
  \<open>rows_of_frame\<close> lists the rows a frame should yield: for each region of
  \<open>region_iter\<close> in order, for each value of its subset in order, the row built from
  the value and its cached coordinates (\<open>coords_of\<close>; the default triple is never used
  where the lookup succeeds). \<open>ideal\<close> does the same along a work list.
  \<open>frame_values\<close> pairs each value of a frame with its region name, \<open>cached\<close> says
  that the coordinate cache knows a value's instance and label.
  \<open>headers_ok\<close> says that every header written is the given header and that every file
  opened got it. \<open>row_before\<close> orders rows by frame index, then by the position of the
  region name in a list of names.
\<close>

definition coords_of :: "(string \<rightharpoonup> (int \<rightharpoonup> Coordinates)) \<Rightarrow> field_value \<Rightarrow> Coordinates" where
  "coords_of cc v = (case lookup_coords cc v of Inl k \<Rightarrow> (0, 0, 0) | Inr c \<Rightarrow> c)"

definition rows_of_frame ::
  "(string \<rightharpoonup> (int \<rightharpoonup> Coordinates)) \<Rightarrow> node_set list option \<Rightarrow> string \<Rightarrow> nat \<Rightarrow> frame \<Rightarrow> row list" where
  "rows_of_frame cc regions fv i f =
     (case map_of (fieldOutputs f) fv of
        None \<Rightarrow> []
      | Some field \<Rightarrow>
          concat (map (\<lambda>(rn, vals). map (\<lambda>v. data_row i (frameValue f) rn v (coords_of cc v)) vals)
                      (region_iter regions field)))"

fun ideal :: "(string \<rightharpoonup> (int \<rightharpoonup> Coordinates)) \<Rightarrow> item list \<Rightarrow> row list" where
  "ideal cc [] = []"
| "ideal cc (Emit fi t rn v # r) = data_row fi t rn v (coords_of cc v) # ideal cc r"
| "ideal cc (_ # r) = ideal cc r"

definition headers_ok :: "row \<Rightarrow> event list \<Rightarrow> bool" where
  "headers_ok hdr tr =
     ((\<forall>h r. WriteHeader h r \<in> set tr \<longrightarrow> r = hdr)
      \<and> (\<forall>h p. OpenFile h p \<in> set tr \<longrightarrow> WriteHeader h hdr \<in> set tr))"

fun closure_header :: "row \<Rightarrow> writer_closure \<Rightarrow> bool" where
  "closure_header hdr (SplitWriter sp base ext header) = (header = hdr)"
| "closure_header hdr (BaseWriter w) = True"

fun index_of :: "'a list \<Rightarrow> 'a \<Rightarrow> nat" where
  "index_of [] a = 0"
| "index_of (x # xs) a = (if x = a then 0 else Suc (index_of xs a))"

definition region_names :: "node_set list option \<Rightarrow> string list" where
  "region_names regions =
     (case regions of None \<Rightarrow> [''ALL''] | Some [] \<Rightarrow> [''ALL''] | Some rs \<Rightarrow> map set_name rs)"

definition row_before :: "string list \<Rightarrow> row \<Rightarrow> row \<Rightarrow> bool" where
  "row_before names r1 r2 =
     (row_frame_index r1 < row_frame_index r2
      \<or> (row_frame_index r1 = row_frame_index r2
          \<and> index_of names (row_region r1) \<le> index_of names (row_region r2)))"

definition cached :: "(string \<rightharpoonup> (int \<rightharpoonup> Coordinates)) \<Rightarrow> field_value \<Rightarrow> bool" where
  "cached cc v = (case lookup_coords cc v of Inl k \<Rightarrow> False | Inr c \<Rightarrow> True)"

definition frame_values ::
  "node_set list option \<Rightarrow> field_output \<Rightarrow> (string \<times> field_value) list" where
  "frame_values regions field =
     concat (map (\<lambda>(rn, vals). map (Pair rn) vals) (region_iter regions field))"

definition stray_odb :: odb where
  "stray_odb =
     \<lparr>steps = [(''HeatStep'', \<lparr>frames = [demo_frame 0, demo_frame 1]\<rparr>)],
      rootAssembly =
        \<lparr>instances = instances demo_assembly,
         nodeSets = [(''S'', NodeSet ''S'' [(''PART-1'', 7), (''PART-1'', 99), (''PART-1'', 8)])]\<rparr>\<rparr>"

section \<open>The split-mode protocol\<close>

text \<open>
  \<open>sink_path\<close> is the path of a region's sink as the specification words it: the base
  path with \<open>__\<close> and the region name, separators and spaces replaced by underscores,
  put before the extension, \<open>.csv\<close> when the base path has none. \<open>first_seen\<close> keeps
  the first occurrence of each element. \<open>watch_run\<close> reads a trace from the left and
  stays out of \<open>Bad\<close> exactly when every file is opened immediately before its header
  and a data row of a region that has no sink yet and whose path the file has, and every
  other data row goes to the sink already opened for its region. \<open>split_inv\<close> is what
  holds between two work items of a split-mode run; \<open>fs_inv\<close> says that every file, and
  every file an open file object is bound to, starts with the header.
\<close>

definition sink_path :: "os \<Rightarrow> string \<Rightarrow> string \<Rightarrow> string" where
  "sink_path e out region =
     (case splitext e out of
        (base, ext) \<Rightarrow>
          base @ ''__''
          @ map (\<lambda>c. if c = sep e \<or> c = CHR '' '' then CHR ''_'' else c) region
          @ (if ext = [] then ''.csv'' else ext))"

primrec first_seen :: "'a list \<Rightarrow> 'a list" where
  "first_seen [] = []"
| "first_seen (x # xs) = x # filter (\<lambda>y. y \<noteq> x) (first_seen xs)"

datatype watch =
    Bad
  | Idle "(string \<times> nat) list"
  | Opened "(string \<times> nat) list" nat string
  | Headed "(string \<times> nat) list" nat string

fun watch_step :: "(string \<Rightarrow> string) \<Rightarrow> row \<Rightarrow> watch \<Rightarrow> event \<Rightarrow> watch" where
  "watch_step path hdr (Idle sinks) (OpenFile h p) = Opened sinks h p"
| "watch_step path hdr (Idle sinks) (WriteRow h d) =
     (if map_of sinks (row_region d) = Some h then Idle sinks else Bad)"
| "watch_step path hdr (Idle sinks) (WriteHeader h r) = Bad"
| "watch_step path hdr (Idle sinks) ev = Idle sinks"
| "watch_step path hdr (Opened sinks h p) (WriteHeader h1 r) =
     (if h1 = h \<and> r = hdr then Headed sinks h p else Bad)"
| "watch_step path hdr (Opened sinks h p) ev = Bad"
| "watch_step path hdr (Headed sinks h p) (WriteRow h2 d) =
     (if h2 = h \<and> p = path (row_region d) \<and> map_of sinks (row_region d) = None
      then Idle (sinks @ [(row_region d, h)]) else Bad)"
| "watch_step path hdr (Headed sinks h p) ev = Bad"
| "watch_step path hdr Bad ev = Bad"

definition watch_run :: "(string \<Rightarrow> string) \<Rightarrow> row \<Rightarrow> event list \<Rightarrow> watch" where
  "watch_run path hdr tr = foldl (watch_step path hdr) (Idle []) tr"

definition split_inv :: "(string \<Rightarrow> string) \<Rightarrow> row \<Rightarrow> state \<Rightarrow> bool" where
  "split_inv path hdr s =
     (watch_run path hdr (trace s) = Idle (writer_handles s)
      \<and> opened_files (trace s) = map path (first_seen (map row_region (data_rows (trace s))))
      \<and> map fst (writer_handles s) = first_seen (map row_region (data_rows (trace s))))"

definition fs_inv :: "row \<Rightarrow> (nat \<rightharpoonup> string) \<times> (string \<rightharpoonup> row list) \<Rightarrow> bool" where
  "fs_inv hdr st =
     ((\<forall>h p. fst st h = Some p \<longrightarrow> (\<exists>rest. snd st p = Some (hdr # rest)))
      \<and> (\<forall>p rows. snd st p = Some rows \<longrightarrow> (\<exists>rest. rows = hdr # rest)))"

definition replay :: "event list \<Rightarrow> (nat \<rightharpoonup> string) \<times> (string \<rightharpoonup> row list)" where
  "replay tr = foldl (\<lambda>st ev. fs_step ev st) (Map.empty, Map.empty) tr"

definition sensors_odb :: odb where
  "sensors_odb =
     \<lparr>steps = [(''HeatStep'', \<lparr>frames = [demo_frame 0, demo_frame 1]\<rparr>)],
      rootAssembly =
        \<lparr>instances = instances demo_assembly,
         nodeSets = [(''SENSORS N'', NodeSet ''SENSORS N'' [(''PART-1'', 7)]),
                     (''EMPTY'', NodeSet ''EMPTY'' [])]\<rparr>\<rparr>"

definition sensors_cfg :: config where
  "sensors_cfg =
     plain_cfg\<lparr>node_sets := Some [''EMPTY'', ''SENSORS N''], split_by_node_set := True\<rparr>"

section \<open>File objects opened and closed\<close>

text \<open>The file objects a trace opens and closes, each in program order.\<close>

fun opened_handles :: "event list \<Rightarrow> nat list" where
  "opened_handles [] = []"
| "opened_handles (OpenFile h p # es) = h # opened_handles es"
| "opened_handles (_ # es) = opened_handles es"

fun closed_handles :: "event list \<Rightarrow> nat list" where
  "closed_handles [] = []"
| "closed_handles (CloseFile h # es) = h # closed_handles es"
| "closed_handles (_ # es) = closed_handles es"

section \<open>The loops and the work list agree\<close>

lemma read_frames_append: "read_frames (xs @ ys) = read_frames xs @ read_frames ys"
  by (induction xs rule: read_frames.induct) simp_all

lemma data_rows_append: "data_rows (xs @ ys) = data_rows xs @ data_rows ys"
  by (induction xs rule: data_rows.induct) simp_all

lemma opened_files_append: "opened_files (xs @ ys) = opened_files xs @ opened_files ys"
  by (induction xs rule: opened_files.induct) simp_all

lemma exec_append:
  "exec cfg gw cc (xs @ ys) s =
     (case exec cfg gw cc xs s of
        (None, s') \<Rightarrow> exec cfg gw cc ys s'
      | (Some e, s') \<Rightarrow> (Some e, s'))"
  by (induction cfg gw cc xs s rule: exec.induct) (auto split: sum.splits prod.splits)

lemma values_loop_exec:
  "values_loop gw cc fi t rn vs s = exec cfg gw cc (map (Emit fi t rn) vs) s"
  by (induction vs arbitrary: s)
     (auto simp: lookup_coords_def split: option.splits prod.splits)

lemma region_items_Nil: "region_items fi t [] = []"
  by (simp add: region_items_def)

lemma region_items_Cons:
  "region_items fi t ((rn, vals) # ri) = map (Emit fi t rn) vals @ region_items fi t ri"
  by (simp add: region_items_def)

lemma regions_loop_exec:
  "regions_loop gw cc fi t ri s = exec cfg gw cc (region_items fi t ri) s"
proof (induction ri arbitrary: s)
  case Nil
  then show ?case by (simp add: region_items_Nil)
next
  case (Cons a ri)
  then show ?case
    by (cases a)
       (simp add: region_items_Cons exec_append values_loop_exec [where cfg = cfg]
          split: prod.splits option.splits)
qed

lemma frames_loop_exec:
  "frames_loop cfg gw cc regions i fs s = exec cfg gw cc (plan cfg regions i fs) s"
proof (induction fs arbitrary: i s)
  case Nil
  then show ?case by simp
next
  case (Cons f fs)
  show ?case
    by (simp add: Cons.IH below_start_def above_end_def exec_append
          regions_loop_exec [where cfg = cfg] Let_def
        split: option.splits prod.splits)
qed

lemma get_writer_read_frames:
  "get_writer gw n s = (w, s') \<Longrightarrow> read_frames (trace s') = read_frames (trace s)"
  by (cases gw)
     (auto simp: open_writer_def Let_def read_frames_append split: option.splits)

lemma get_writer_data_rows:
  "get_writer gw n s = (w, s') \<Longrightarrow> data_rows (trace s') = data_rows (trace s)"
  by (cases gw)
     (auto simp: open_writer_def Let_def data_rows_append split: option.splits)

lemma exec_outcome:
  "exec cfg gw cc items s = (err, s') \<Longrightarrow>
     read_frames (trace s') = read_frames (trace s) @ fetched (takeWhile (item_ok cc) items)
     \<and> data_rows (trace s') = data_rows (trace s) @ emitted cc (takeWhile (item_ok cc) items)
     \<and> err = first_error cfg cc items"
proof (induction cfg gw cc items s rule: exec.induct)
  case (1 cfg gw cc s)
  then show ?case by (simp add: first_error_def)
next
  case (2 cfg gw cc i r s)
  then show ?case by (simp add: first_error_def read_frames_append data_rows_append)
next
  case (3 cfg gw cc i r s)
  then show ?case by (auto simp: first_error_def)
next
  case (4 cfg gw cc fi t rn v r s)
  show ?case
  proof (cases "lookup_coords cc v")
    case (Inl k)
    with 4 show ?thesis by (auto simp: first_error_def)
  next
    case (Inr coords)
    obtain w s1 where gw: "get_writer gw rn s = (w, s1)" by (cases "get_writer gw rn s")
    from "4.prems" Inr gw
    have run: "exec cfg gw cc r
                 (s1\<lparr>trace := trace s1 @ [WriteRow w (data_row fi t rn v coords)]\<rparr>) = (err, s')"
      by simp
    from "4.IH" [OF Inr gw [symmetric] run]
    show ?thesis
      using Inr get_writer_read_frames [OF gw] get_writer_data_rows [OF gw]
      by (simp add: first_error_def read_frames_append data_rows_append)
  qed
qed

lemma in_window_iff: "in_window cfg t \<longleftrightarrow> \<not> below_start cfg t \<and> \<not> above_end cfg t"
  by (auto simp: in_window_def below_start_def above_end_def split: option.splits)

lemma sel_filter:
  "sel cfg i fs =
     filter (\<lambda>j. int j mod frame_stride cfg = 0 \<and> in_window cfg (frameValue (fs ! (j - i))))
       [i..<i + length fs]"
proof (induction fs arbitrary: i)
  case Nil
  then show ?case by simp
next
  case (Cons f fs)
  have "filter (\<lambda>j. int j mod frame_stride cfg = 0 \<and> in_window cfg (frameValue ((f # fs) ! (j - i))))
          [Suc i..<Suc i + length fs]
        = filter (\<lambda>j. int j mod frame_stride cfg = 0 \<and> in_window cfg (frameValue (fs ! (j - Suc i))))
          [Suc i..<Suc i + length fs]"
  proof (intro filter_cong refl)
    fix j assume "j \<in> set [Suc i..<Suc i + length fs]"
    then have "j - i = Suc (j - Suc i)" by auto
    then show "(int j mod frame_stride cfg = 0 \<and> in_window cfg (frameValue ((f # fs) ! (j - i))))
      = (int j mod frame_stride cfg = 0 \<and> in_window cfg (frameValue (fs ! (j - Suc i))))"
      by simp
  qed
  then show ?case
    by (simp add: Cons.IH upt_conv_Cons del: upt_Suc)
qed

lemma sel_selected: "sel cfg 0 fs = selected cfg fs"
  by (simp add: sel_filter selected_def)

lemma fetched_append: "fetched (xs @ ys) = fetched xs @ fetched ys"
  by (induction xs rule: fetched.induct) simp_all

lemma fetched_region_items: "fetched (region_items fi t ri) = []"
proof -
  have "fetched (map (Emit fi t rn) vals) = []" for rn vals
    by (induction vals) simp_all
  then show ?thesis
    by (induction ri) (auto simp: region_items_def fetched_append)
qed

lemma sel_above_end:
  "above_end cfg t \<Longrightarrow> \<forall>f \<in> set fs. t \<le> frameValue f \<Longrightarrow> sel cfg i fs = []"
  by (induction fs arbitrary: i)
     (auto simp: in_window_def above_end_def split: option.splits)

text \<open>Without an abort the fetched frames are all the selected ones.\<close>

lemma fetched_plan_prefix:
  "sorted (map frameValue fs) \<Longrightarrow> prefix (fetched (plan cfg regions i fs)) (sel cfg i fs)"
proof (induction fs arbitrary: i)
  case Nil
  then show ?case by simp
next
  case (Cons f fs)
  then have srt: "sorted (map frameValue fs)" and le: "\<forall>g \<in> set fs. frameValue f \<le> frameValue g"
    by auto
  show ?case
    using Cons.IH [OF srt, of "Suc i"] sel_above_end [of cfg "frameValue f" fs "Suc i"] le
    by (auto simp: in_window_iff fetched_append fetched_region_items split: option.splits)
qed

lemma fetched_plan_complete:
  "sorted (map frameValue fs) \<Longrightarrow> \<forall>j. Missing j \<notin> set (plan cfg regions i fs) \<Longrightarrow>
     fetched (plan cfg regions i fs) = sel cfg i fs"
proof (induction fs arbitrary: i)
  case Nil
  then show ?case by simp
next
  case (Cons f fs)
  then have srt: "sorted (map frameValue fs)" and le: "\<forall>g \<in> set fs. frameValue f \<le> frameValue g"
    by auto
  show ?case
    using Cons.IH [OF srt, of "Suc i"] Cons.prems(2)
      sel_above_end [of cfg "frameValue f" fs "Suc i"] le
    by (auto simp: in_window_iff fetched_append fetched_region_items split: option.splits if_splits)
qed

lemma first_error_None: "first_error cfg cc items = None \<Longrightarrow> takeWhile (item_ok cc) items = items"
proof (induction items)
  case Nil
  then show ?case by simp
next
  case (Cons a items)
  then show ?case
    by (cases a) (auto simp: first_error_def split: sum.splits if_splits)
qed

lemma first_error_None_no_missing:
  "first_error cfg cc items = None \<Longrightarrow> Missing j \<notin> set items"
proof (induction items)
  case Nil
  then show ?case by simp
next
  case (Cons a items)
  then show ?case
    by (cases a) (auto simp: first_error_def split: sum.splits if_splits)
qed

lemma fetched_takeWhile_prefix: "prefix (fetched (takeWhile P xs)) (fetched xs)"
proof -
  have "fetched xs = fetched (takeWhile P xs) @ fetched (dropWhile P xs)"
    by (simp flip: fetched_append)
  then show ?thesis by (metis prefixI)
qed

lemma read_frames_finally: "read_frames (finally_block s) = read_frames (trace s)"
proof -
  have "read_frames (map (\<lambda>(n, h). CloseFile h) xs) = []" for xs :: "(string \<times> nat) list"
    by (induction xs) auto
  then show ?thesis by (simp add: finally_block_def read_frames_append)
qed

lemma data_rows_finally: "data_rows (finally_block s) = data_rows (trace s)"
proof -
  have "data_rows (map (\<lambda>(n, h). CloseFile h) xs) = []" for xs :: "(string \<times> nat) list"
    by (induction xs) auto
  then show ?thesis by (simp add: finally_block_def data_rows_append)
qed

lemma make_get_writer_quiet:
  "make_get_writer e cfg hdr \<lparr>writer_handles = [], next_handle = 0, trace = [OpenOdb p]\<rparr> = (gw, s1)
     \<Longrightarrow> read_frames (trace s1) = [] \<and> data_rows (trace s1) = []"
  by (auto simp: make_get_writer_def open_writer_def Let_def split: if_splits prod.splits)

text \<open>What a run that reaches the loop returns, read off the work list.\<close>

lemma export_main_path:
  assumes "1 \<le> frame_stride cfg"
    and "map_of (steps archive) (step_name cfg) = Some stp"
    and "requested_regions (rootAssembly archive) cfg = Inr regions"
    and "export_temperatures e archive cfg = (err, tr)"
    and "cc = build_coordinate_cache (map snd (instances (rootAssembly archive)))"
    and "items = plan cfg regions 0 (frames stp)"
  shows "err = first_error cfg cc items
     \<and> read_frames tr = fetched (takeWhile (item_ok cc) items)
     \<and> data_rows tr = emitted cc (takeWhile (item_ok cc) items)"
proof -
  obtain gw s1 where mk:
    "make_get_writer e cfg (header_row (field_variable cfg))
       \<lparr>writer_handles = [], next_handle = 0, trace = [OpenOdb (odb_path cfg)]\<rparr> = (gw, s1)"
    by (cases "make_get_writer e cfg (header_row (field_variable cfg))
       \<lparr>writer_handles = [], next_handle = 0, trace = [OpenOdb (odb_path cfg)]\<rparr>")
  obtain err' s2 where run: "frames_loop cfg gw cc regions 0 (frames stp) s1 = (err', s2)"
    by (cases "frames_loop cfg gw cc regions 0 (frames stp) s1")
  from assms(1-4) mk run have res: "err = err'" "tr = finally_block s2"
    by (auto simp: export_temperatures_def Let_def assms(5))
  from run have "exec cfg gw cc items s1 = (err', s2)"
    by (simp add: frames_loop_exec assms(6))
  from exec_outcome [OF this] make_get_writer_quiet [OF mk] res
  show ?thesis by (simp add: read_frames_finally data_rows_finally)
qed

text \<open>Every other run stops before the loop, with nothing read and nothing written.\<close>

lemma export_early_exit:
  assumes "export_temperatures e archive cfg = (err, tr)"
    and "frame_stride cfg < 1 \<or> map_of (steps archive) (step_name cfg) = None
         \<or> (\<exists>x. requested_regions (rootAssembly archive) cfg = Inl x)"
  shows "err \<noteq> None \<and> read_frames tr = [] \<and> data_rows tr = [] \<and> opened_files tr = []"
  using assms
  by (auto simp: export_temperatures_def Let_def split: if_splits option.splits sum.splits)

lemma export_cases:
  assumes "export_temperatures e archive cfg = (err, tr)"
    and "map_of (steps archive) (step_name cfg) = Some stp"
  shows "(err \<noteq> None \<and> read_frames tr = [] \<and> data_rows tr = [])
     \<or> (\<exists>regions. 1 \<le> frame_stride cfg
            \<and> requested_regions (rootAssembly archive) cfg = Inr regions
            \<and> err = first_error cfg (build_coordinate_cache (map snd (instances (rootAssembly archive))))
                      (plan cfg regions 0 (frames stp))
            \<and> read_frames tr =
                 fetched (takeWhile (item_ok (build_coordinate_cache (map snd (instances (rootAssembly archive)))))
                   (plan cfg regions 0 (frames stp)))
            \<and> data_rows tr =
                 emitted (build_coordinate_cache (map snd (instances (rootAssembly archive))))
                   (takeWhile (item_ok (build_coordinate_cache (map snd (instances (rootAssembly archive)))))
                   (plan cfg regions 0 (frames stp))))"
proof (cases "frame_stride cfg < 1 \<or> (\<exists>x. requested_regions (rootAssembly archive) cfg = Inl x)")
  case True
  with export_early_exit [OF assms(1)] show ?thesis by blast
next
  case False
  then obtain regions where "1 \<le> frame_stride cfg"
    "requested_regions (rootAssembly archive) cfg = Inr regions"
    by (cases "requested_regions (rootAssembly archive) cfg") auto
  with export_main_path [OF _ assms(2) _ assms(1) refl refl] show ?thesis by blast
qed

section \<open>Claims about the frame walk\<close>

text \<open>
  Claim C1. For a step whose frame times never decrease, the frames whose field is read
  are, in order, indices of \<open>selected\<close>: multiples of the stride whose time lies in the
  window, each bound counting only when set. A run that returns without an exception has
  read exactly those frames, so the set of processed indices is the set of multiples of
  the stride intersected with the window. (A run cut short by an exception has read an
  initial part of that list.) The stride test does not look at the time.
\<close>

theorem processed_frames_are_stride_and_window:
  assumes "map_of (steps archive) (step_name cfg) = Some stp"
    and "sorted (map frameValue (frames stp))"
    and "export_temperatures e archive cfg = (err, tr)"
  shows "prefix (read_frames tr) (selected cfg (frames stp))
     \<and> (err = None \<longrightarrow>
          read_frames tr = selected cfg (frames stp)
          \<and> set (read_frames tr) =
              {i. i < length (frames stp) \<and> int i mod frame_stride cfg = 0
                  \<and> in_window cfg (frameValue (frames stp ! i))})"
proof -
  have set_sel: "set (selected cfg (frames stp)) =
      {i. i < length (frames stp) \<and> int i mod frame_stride cfg = 0
          \<and> in_window cfg (frameValue (frames stp ! i))}"
    by (auto simp: selected_def)
  from export_cases [OF assms(3) assms(1)] show ?thesis
  proof
    assume "err \<noteq> None \<and> read_frames tr = [] \<and> data_rows tr = []"
    then show ?thesis by auto
  next
    assume "\<exists>regions. 1 \<le> frame_stride cfg
            \<and> requested_regions (rootAssembly archive) cfg = Inr regions
            \<and> err = first_error cfg (build_coordinate_cache (map snd (instances (rootAssembly archive))))
                      (plan cfg regions 0 (frames stp))
            \<and> read_frames tr =
                 fetched (takeWhile (item_ok (build_coordinate_cache (map snd (instances (rootAssembly archive)))))
                   (plan cfg regions 0 (frames stp)))
            \<and> data_rows tr =
                 emitted (build_coordinate_cache (map snd (instances (rootAssembly archive))))
                   (takeWhile (item_ok (build_coordinate_cache (map snd (instances (rootAssembly archive)))))
                   (plan cfg regions 0 (frames stp)))"
    then obtain regions cc items where
      cc: "cc = build_coordinate_cache (map snd (instances (rootAssembly archive)))"
      and items: "items = plan cfg regions 0 (frames stp)"
      and err: "err = first_error cfg cc items"
      and rd: "read_frames tr = fetched (takeWhile (item_ok cc) items)"
      by blast
    have "prefix (read_frames tr) (fetched items)"
      unfolding rd by (rule fetched_takeWhile_prefix)
    also have "prefix (fetched items) (selected cfg (frames stp))"
      unfolding items using fetched_plan_prefix [OF assms(2), of cfg regions 0]
      by (simp add: sel_selected)
    finally have pre: "prefix (read_frames tr) (selected cfg (frames stp))" .
    have "read_frames tr = selected cfg (frames stp)" if "err = None"
    proof -
      from that err have none: "first_error cfg cc items = None" by simp
      then have tw: "takeWhile (item_ok cc) items = items" by (rule first_error_None)
      from none have "\<forall>j. Missing j \<notin> set (plan cfg regions 0 (frames stp))"
        using first_error_None_no_missing items by blast
      from fetched_plan_complete [OF assms(2) this]
      have "fetched items = selected cfg (frames stp)"
        by (simp only: items sel_selected)
      with rd show ?thesis by (simp only: tw)
    qed
    with pre set_sel show ?thesis by simp
  qed
qed

lemmas demo_defs = demo_odb_def demo_cfg_def demo_step_def demo_assembly_def demo_field_def
  posix_def

lemmas run_defs = export_temperatures_def requested_regions_def make_get_writer_def
  open_writer_def header_row_def build_coordinate_cache_def region_iter_def data_row_def
  finally_block_def Let_def

theorem processed_frames_witness:
  "map_of (steps demo_odb) (step_name demo_cfg) = Some demo_step
   \<and> sorted (map frameValue (frames demo_step))
   \<and> fst (export_temperatures posix demo_odb demo_cfg) = None
   \<and> set (read_frames (snd (export_temperatures posix demo_odb demo_cfg))) = {3, 6}"
proof -
  have h1: "map_of (steps demo_odb) (step_name demo_cfg) = Some demo_step"
    by (simp add: demo_odb_def demo_cfg_def)
  have h2: "sorted (map frameValue (frames demo_step))"
    by (simp add: demo_step_def)
  have h3: "export_temperatures posix demo_odb demo_cfg
            = (fst (export_temperatures posix demo_odb demo_cfg),
               snd (export_temperatures posix demo_odb demo_cfg))"
    by simp
  have h4: "fst (export_temperatures posix demo_odb demo_cfg) = None"
    by (simp add: demo_defs run_defs)
  have sel: "selected demo_cfg (frames demo_step) = [3, 6]"
    by (simp add: selected_def in_window_def demo_cfg_def demo_step_def upt_rec)
  from processed_frames_are_stride_and_window [OF h1 h2 h3] h4
  have "read_frames (snd (export_temperatures posix demo_odb demo_cfg))
        = selected demo_cfg (frames demo_step)"
    by blast
  with h1 h2 h4 sel show ?thesis by simp
qed

lemma export_pair:
  "export_temperatures e a c = (fst (export_temperatures e a c), snd (export_temperatures e a c))"
  by simp

lemmas demo_defs2 = demo_defs demo_frame_def bare_frame_def odb_of_def plain_cfg_def

lemma row_frame_index_data_row [simp]: "row_frame_index (data_row fi t rn v c) = int fi"
  by (cases c) (simp add: data_row_def)

lemma row_region_data_row [simp]: "row_region (data_row fi t rn v c) = rn"
  by (cases c) (simp add: data_row_def)

lemma item_index_region_items:
  "it \<in> set (region_items fi t ri) \<Longrightarrow> item_index it = fi"
  by (auto simp: region_items_def)

lemma plan_empty_window:
  "start_time cfg = Some st \<Longrightarrow> end_time cfg = Some et \<Longrightarrow> et < st \<Longrightarrow>
     plan cfg regions i fs = []"
  by (induction fs arbitrary: i) (auto simp: below_start_def above_end_def)

lemma plan_index_lower: "it \<in> set (plan cfg regions i fs) \<Longrightarrow> i \<le> item_index it"
proof (induction fs arbitrary: i)
  case Nil
  then show ?case by simp
next
  case (Cons f fs)
  then show ?case
    by (fastforce simp: item_index_region_items split: if_splits option.splits
          dest: Suc_leD)
qed

text \<open>A stride-qualifying frame beyond \<open>end_time\<close> bounds every item of the work list.\<close>

lemma plan_stops_at:
  "end_time cfg = Some et \<Longrightarrow> j < length fs \<Longrightarrow> int (i + j) mod frame_stride cfg = 0 \<Longrightarrow>
   et < frameValue (fs ! j) \<Longrightarrow> it \<in> set (plan cfg regions i fs) \<Longrightarrow> item_index it < i + j"
proof (induction fs arbitrary: i j)
  case Nil
  then show ?case by simp
next
  case (Cons f fs)
  show ?case
  proof (cases j)
    case 0
    with Cons.prems have stride: "int i mod frame_stride cfg = 0" and late: "et < frameValue f"
      by simp_all
    have "plan cfg regions i (f # fs) = []"
    proof (cases "below_start cfg (frameValue f)")
      case True
      then obtain st where "start_time cfg = Some st" "frameValue f < st"
        by (auto simp: below_start_def split: option.splits)
      with late Cons.prems(1) show ?thesis
        by (intro plan_empty_window [of cfg st et]) auto
    next
      case False
      with stride late Cons.prems(1) show ?thesis by (simp add: above_end_def)
    qed
    with Cons.prems show ?thesis by simp
  next
    case (Suc j')
    with Cons.prems have j': "j' < length fs" "int (Suc i + j') mod frame_stride cfg = 0"
      "et < frameValue (fs ! j')"
      by simp_all
    have tail: "it \<in> set (plan cfg regions (Suc i) fs) \<Longrightarrow> item_index it < i + j"
      using Cons.IH [OF Cons.prems(1) j'] Suc by simp
    from Cons.prems(5) show ?thesis
      using tail Suc
      by (auto simp: item_index_region_items split: if_splits option.splits)
  qed
qed

lemma fetched_subset: "i \<in> set (fetched xs) \<Longrightarrow> Fetch i \<in> set xs"
  by (induction xs rule: fetched.induct) auto

lemma emitted_subset:
  "r \<in> set (emitted cc xs) \<Longrightarrow>
     \<exists>fi t rn v c. Emit fi t rn v \<in> set xs \<and> lookup_coords cc v = Inr c
        \<and> r = data_row fi t rn v c"
proof (induction xs)
  case Nil
  then show ?case by simp
next
  case (Cons a xs)
  have tail: "r \<in> set (emitted cc xs) \<Longrightarrow> ?case"
    using Cons.IH by (metis list.set_intros(2))
  show ?case
  proof (cases a)
    case (Emit fi t rn v)
    show ?thesis
    proof (cases "lookup_coords cc v")
      case (Inl k)
      with Cons.prems Emit tail show ?thesis by simp
    next
      case (Inr c)
      with Cons.prems Emit have "r = data_row fi t rn v c \<or> r \<in> set (emitted cc xs)"
        by simp
      then show ?thesis
      proof
        assume "r = data_row fi t rn v c"
        with Inr Emit show ?thesis by (metis list.set_intros(1))
      qed (rule tail)
    qed
  qed (use Cons.prems tail in simp_all)
qed

text \<open>
  Claim C3. With \<open>end_time\<close> set, a frame whose index is a multiple of the stride and
  whose time is strictly beyond \<open>end_time\<close> ends the walk: no frame at or after it is
  read and no row of such a frame is written, whatever the times of the later frames.
  A frame strictly before \<open>start_time\<close> is only skipped: the loop goes on with the next
  frame, in the same state.
\<close>

theorem end_time_stops_the_walk:
  assumes "map_of (steps archive) (step_name cfg) = Some stp"
    and "end_time cfg = Some et"
    and "j < length (frames stp)"
    and "int j mod frame_stride cfg = 0"
    and "et < frameValue (frames stp ! j)"
    and "export_temperatures e archive cfg = (err, tr)"
  shows "(\<forall>i \<in> set (read_frames tr). i < j)
     \<and> (\<forall>r \<in> set (data_rows tr). row_frame_index r < int j)
     \<and> (\<forall>st f fs i gw cc regions s.
           start_time cfg = Some st \<and> frameValue f < st \<longrightarrow>
             frames_loop cfg gw cc regions i (f # fs) s
               = frames_loop cfg gw cc regions (Suc i) fs s)"
proof -
  have skip: "\<forall>st f fs i gw cc regions s.
           start_time cfg = Some st \<and> frameValue f < st \<longrightarrow>
             frames_loop cfg gw cc regions i (f # fs) s
               = frames_loop cfg gw cc regions (Suc i) fs s"
    by simp
  from export_cases [OF assms(6) assms(1)]
  have "(\<forall>i \<in> set (read_frames tr). i < j)
     \<and> (\<forall>r \<in> set (data_rows tr). row_frame_index r < int j)"
  proof
    assume "err \<noteq> None \<and> read_frames tr = [] \<and> data_rows tr = []"
    then show ?thesis by simp
  next
    assume "\<exists>regions. 1 \<le> frame_stride cfg
            \<and> requested_regions (rootAssembly archive) cfg = Inr regions
            \<and> err = first_error cfg (build_coordinate_cache (map snd (instances (rootAssembly archive))))
                      (plan cfg regions 0 (frames stp))
            \<and> read_frames tr =
                 fetched (takeWhile (item_ok (build_coordinate_cache (map snd (instances (rootAssembly archive)))))
                   (plan cfg regions 0 (frames stp)))
            \<and> data_rows tr =
                 emitted (build_coordinate_cache (map snd (instances (rootAssembly archive))))
                   (takeWhile (item_ok (build_coordinate_cache (map snd (instances (rootAssembly archive)))))
                   (plan cfg regions 0 (frames stp)))"
    then obtain regions cc items where
      items: "items = plan cfg regions 0 (frames stp)"
      and rd: "read_frames tr = fetched (takeWhile (item_ok cc) items)"
      and rows: "data_rows tr = emitted cc (takeWhile (item_ok cc) items)"
      by blast
    have bound: "item_index it < j" if "it \<in> set (takeWhile (item_ok cc) items)" for it
    proof -
      from that have "it \<in> set (plan cfg regions 0 (frames stp))"
        unfolding items by (rule set_takeWhileD [THEN conjunct1])
      from plan_stops_at [OF assms(2) assms(3) _ assms(5) this] assms(4)
      show ?thesis by simp
    qed
    have "i < j" if "i \<in> set (read_frames tr)" for i
      using bound [OF fetched_subset [OF that [unfolded rd]]] by simp
    moreover have "row_frame_index r < int j" if "r \<in> set (data_rows tr)" for r
    proof -
      from emitted_subset [OF that [unfolded rows]]
      obtain fi t rn v c where "Emit fi t rn v \<in> set (takeWhile (item_ok cc) items)"
        "r = data_row fi t rn v c"
        by blast
      with bound [of "Emit fi t rn v"] show ?thesis by simp
    qed
    ultimately show ?thesis by blast
  qed
  with skip show ?thesis by blast
qed

theorem end_time_stops_the_walk_witness:
  "map_of (steps (odb_of [demo_frame 0, demo_frame 5, demo_frame 1]))
     (step_name (plain_cfg\<lparr>end_time := Some 4\<rparr>))
     = Some \<lparr>frames = [demo_frame 0, demo_frame 5, demo_frame 1]\<rparr>
   \<and> end_time (plain_cfg\<lparr>end_time := Some 4\<rparr>) = Some 4
   \<and> (1::nat) < length [demo_frame 0, demo_frame 5, demo_frame 1]
   \<and> int 1 mod frame_stride (plain_cfg\<lparr>end_time := Some 4\<rparr>) = 0
   \<and> 4 < frameValue ([demo_frame 0, demo_frame 5, demo_frame 1] ! 1)
   \<and> in_window (plain_cfg\<lparr>end_time := Some 4\<rparr>)
        (frameValue ([demo_frame 0, demo_frame 5, demo_frame 1] ! 2))
   \<and> set (read_frames (snd (export_temperatures posix
          (odb_of [demo_frame 0, demo_frame 5, demo_frame 1])
          (plain_cfg\<lparr>end_time := Some 4\<rparr>)))) \<subseteq> {..<1}"
proof -
  let ?fs = "[demo_frame 0, demo_frame 5, demo_frame 1]"
  let ?cfg = "plain_cfg\<lparr>end_time := Some 4\<rparr>"
  have h1: "map_of (steps (odb_of ?fs)) (step_name ?cfg) = Some \<lparr>frames = ?fs\<rparr>"
    by (simp add: odb_of_def plain_cfg_def)
  have h2: "end_time ?cfg = Some 4" by simp
  have h3: "(1::nat) < length (frames \<lparr>frames = ?fs\<rparr>)" by simp
  have h4: "int 1 mod frame_stride ?cfg = 0" by (simp add: plain_cfg_def)
  have h5: "4 < frameValue (frames \<lparr>frames = ?fs\<rparr> ! 1)" by (simp add: demo_frame_def)
  have h6: "in_window ?cfg (frameValue (?fs ! 2))"
    by (simp add: in_window_def plain_cfg_def demo_frame_def)
  from end_time_stops_the_walk [OF h1 h2 h3 h4 h5 export_pair]
  have "\<forall>i \<in> set (read_frames (snd (export_temperatures posix (odb_of ?fs) ?cfg))). i < 1"
    by blast
  then have "set (read_frames (snd (export_temperatures posix (odb_of ?fs) ?cfg))) \<subseteq> {..<1}"
    by blast
  with h1 h2 h3 h4 h5 h6 show ?thesis by simp
qed


lemma in_window_sorted_not_above:
  "in_window cfg t' \<Longrightarrow> t \<le> t' \<Longrightarrow> \<not> above_end cfg t"
  by (auto simp: in_window_def above_end_def split: option.splits)

lemma plan_missing:
  "sorted (map frameValue fs) \<Longrightarrow> j < length fs \<Longrightarrow>
   int (i + j) mod frame_stride cfg = 0 \<Longrightarrow> in_window cfg (frameValue (fs ! j)) \<Longrightarrow>
   map_of (fieldOutputs (fs ! j)) (field_variable cfg) = None \<Longrightarrow>
   (\<forall>m<j. int (i + m) mod frame_stride cfg = 0 \<and> in_window cfg (frameValue (fs ! m))
       \<longrightarrow> map_of (fieldOutputs (fs ! m)) (field_variable cfg) \<noteq> None) \<Longrightarrow>
   \<exists>pre. plan cfg regions i fs = pre @ [Missing (i + j)]
      \<and> (\<forall>it \<in> set pre. item_index it < i + j \<and> (\<forall>n. it \<noteq> Missing n))"
proof (induction fs arbitrary: i j)
  case Nil
  then show ?case by simp
next
  case (Cons f fs)
  show ?case
  proof (cases j)
    case 0
    with Cons.prems show ?thesis by (simp add: in_window_iff)
  next
    case (Suc j')
    from Cons.prems(1) have srt: "sorted (map frameValue fs)" by simp
    from Cons.prems Suc have j': "j' < length fs" "int (Suc i + j') mod frame_stride cfg = 0"
      "in_window cfg (frameValue (fs ! j'))"
      "map_of (fieldOutputs (fs ! j')) (field_variable cfg) = None"
      by simp_all
    have first': "\<forall>m<j'. int (Suc i + m) mod frame_stride cfg = 0 \<and> in_window cfg (frameValue (fs ! m))
       \<longrightarrow> map_of (fieldOutputs (fs ! m)) (field_variable cfg) \<noteq> None"
    proof (intro allI impI)
      fix m assume "m < j'" and sel: "int (Suc i + m) mod frame_stride cfg = 0 \<and> in_window cfg (frameValue (fs ! m))"
      then have "Suc m < j" using Suc by simp
      with Cons.prems(6) sel show "map_of (fieldOutputs (fs ! m)) (field_variable cfg) \<noteq> None"
        by (metis add_Suc_right add_Suc nth_Cons_Suc)
    qed
    from Cons.IH [OF srt j' first'] obtain pre where
      pre: "plan cfg regions (Suc i) fs = pre @ [Missing (i + j)]"
      and idx: "\<forall>it \<in> set pre. item_index it < i + j \<and> (\<forall>n. it \<noteq> Missing n)"
      using Suc by auto
    have "frameValue f \<le> frameValue (fs ! j')"
      using Cons.prems(1) j'(1) by simp
    then have not_above: "\<not> above_end cfg (frameValue f)"
      using in_window_sorted_not_above [OF j'(3)] by simp
    show ?thesis
    proof (cases "int i mod frame_stride cfg \<noteq> 0 \<or> below_start cfg (frameValue f)")
      case True
      with pre idx show ?thesis by auto
    next
      case False
      then have here: "int i mod frame_stride cfg = 0" "in_window cfg (frameValue f)"
        using not_above by (simp_all add: in_window_iff)
      with Cons.prems(6) Suc obtain field where
        field: "map_of (fieldOutputs f) (field_variable cfg) = Some field"
        by (metis add.right_neutral not_Some_eq nth_Cons_0 zero_less_Suc)
      have "plan cfg regions i (f # fs)
            = (Fetch i # region_items i (frameValue f) (region_iter regions field) @ pre)
              @ [Missing (i + j)]"
        using False not_above field pre by simp
      moreover have "\<forall>it \<in> set (Fetch i # region_items i (frameValue f) (region_iter regions field) @ pre).
          item_index it < i + j \<and> (\<forall>n. it \<noteq> Missing n)"
        using idx Suc by (auto simp: item_index_region_items region_items_def)
      ultimately show ?thesis by blast
    qed
  qed
qed

lemma plan_emit_origin:
  "Emit fi t rn v \<in> set (plan cfg regions i0 fs) \<Longrightarrow>
     i0 \<le> fi \<and> fi - i0 < length fs
     \<and> int fi mod frame_stride cfg = 0 \<and> in_window cfg (frameValue (fs ! (fi - i0)))
     \<and> (\<exists>field vals. map_of (fieldOutputs (fs ! (fi - i0))) (field_variable cfg) = Some field
            \<and> (rn, vals) \<in> set (region_iter regions field) \<and> v \<in> set vals)"
proof (induction fs arbitrary: i0)
  case Nil
  then show ?case by simp
next
  case (Cons f fs)
  have tail: ?case if "Emit fi t rn v \<in> set (plan cfg regions (Suc i0) fs)"
  proof -
    from Cons.IH [OF that] have IH: "Suc i0 \<le> fi" "fi - Suc i0 < length fs"
      "int fi mod frame_stride cfg = 0" "in_window cfg (frameValue (fs ! (fi - Suc i0)))"
      "\<exists>field vals. map_of (fieldOutputs (fs ! (fi - Suc i0))) (field_variable cfg) = Some field
            \<and> (rn, vals) \<in> set (region_iter regions field) \<and> v \<in> set vals"
      by blast+
    from IH(1) have nth: "(f # fs) ! (fi - i0) = fs ! (fi - Suc i0)"
      by (metis Suc_diff_Suc Suc_le_lessD nth_Cons_Suc)
    from IH show ?thesis unfolding nth by auto
  qed
  show ?case
  proof (cases "int i0 mod frame_stride cfg \<noteq> 0 \<or> below_start cfg (frameValue f)")
    case True
    then have "plan cfg regions i0 (f # fs) = plan cfg regions (Suc i0) fs" by auto
    with Cons.prems show ?thesis by (intro tail) simp
  next
    case sel: False
    show ?thesis
    proof (cases "above_end cfg (frameValue f)")
      case True
      with sel Cons.prems show ?thesis by simp
    next
      case False
      show ?thesis
      proof (cases "map_of (fieldOutputs f) (field_variable cfg)")
        case None
        with sel False Cons.prems show ?thesis by simp
      next
        case (Some field)
        from sel False Some Cons.prems
        have "Emit fi t rn v \<in> set (region_items i0 (frameValue f) (region_iter regions field))
              \<or> Emit fi t rn v \<in> set (plan cfg regions (Suc i0) fs)"
          by auto
        then show ?thesis
        proof
          assume "Emit fi t rn v \<in> set (region_items i0 (frameValue f) (region_iter regions field))"
          then have "fi = i0" "\<exists>vals. (rn, vals) \<in> set (region_iter regions field) \<and> v \<in> set vals"
            by (auto simp: region_items_def)
          with sel False Some show ?thesis by (auto simp: in_window_iff)
        qed (rule tail)
      qed
    qed
  qed
qed

lemma plan_missing_fetched:
  "sorted (map frameValue fs) \<Longrightarrow> j < length fs \<Longrightarrow>
   int (i + j) mod frame_stride cfg = 0 \<Longrightarrow> in_window cfg (frameValue (fs ! j)) \<Longrightarrow>
   map_of (fieldOutputs (fs ! j)) (field_variable cfg) = None \<Longrightarrow>
   (\<forall>m<j. int (i + m) mod frame_stride cfg = 0 \<and> in_window cfg (frameValue (fs ! m))
       \<longrightarrow> map_of (fieldOutputs (fs ! m)) (field_variable cfg) \<noteq> None) \<Longrightarrow>
   fetched (plan cfg regions i fs) = sel cfg i (take j fs)"
proof (induction fs arbitrary: i j)
  case Nil
  then show ?case by simp
next
  case (Cons f fs)
  show ?case
  proof (cases j)
    case 0
    with Cons.prems show ?thesis by (simp add: in_window_iff)
  next
    case (Suc j')
    from Cons.prems(1) have srt: "sorted (map frameValue fs)" by simp
    from Cons.prems Suc have j': "j' < length fs" "int (Suc i + j') mod frame_stride cfg = 0"
      "in_window cfg (frameValue (fs ! j'))"
      "map_of (fieldOutputs (fs ! j')) (field_variable cfg) = None"
      by simp_all
    have first': "\<forall>m<j'. int (Suc i + m) mod frame_stride cfg = 0 \<and> in_window cfg (frameValue (fs ! m))
       \<longrightarrow> map_of (fieldOutputs (fs ! m)) (field_variable cfg) \<noteq> None"
    proof (intro allI impI)
      fix m assume "m < j'" and sel: "int (Suc i + m) mod frame_stride cfg = 0 \<and> in_window cfg (frameValue (fs ! m))"
      then have "Suc m < j" using Suc by simp
      with Cons.prems(6) sel show "map_of (fieldOutputs (fs ! m)) (field_variable cfg) \<noteq> None"
        by (metis add_Suc_right add_Suc nth_Cons_Suc)
    qed
    note IH = Cons.IH [OF srt j' first']
    have "frameValue f \<le> frameValue (fs ! j')"
      using Cons.prems(1) j'(1) by simp
    then have not_above: "\<not> above_end cfg (frameValue f)"
      using in_window_sorted_not_above [OF j'(3)] by simp
    show ?thesis
    proof (cases "int i mod frame_stride cfg \<noteq> 0 \<or> below_start cfg (frameValue f)")
      case True
      with IH Suc show ?thesis by (auto simp: in_window_iff)
    next
      case False
      then have here: "int i mod frame_stride cfg = 0" "in_window cfg (frameValue f)"
        using not_above by (simp_all add: in_window_iff)
      with Cons.prems(6) Suc obtain field where
        field: "map_of (fieldOutputs f) (field_variable cfg) = Some field"
        by (metis add.right_neutral not_Some_eq nth_Cons_0 zero_less_Suc)
      with False not_above here IH Suc show ?thesis
        by (simp add: fetched_append fetched_region_items)
    qed
  qed
qed

lemma first_error_all_ok_missing:
  "\<forall>it \<in> set pre. item_ok cc it \<Longrightarrow>
     first_error cfg cc (pre @ [Missing J]) = Some (SystemExit (missing_field_msg cfg J))
     \<and> takeWhile (item_ok cc) (pre @ [Missing J]) = pre"
  by (induction pre) (auto simp: first_error_def)

text \<open>
  Claim C8. In a run that reaches the frame loop over frames in time order, let frame
  \<open>j\<close> be a multiple of the stride, inside the time window, and without the requested
  field, while every selected frame before it has the field and only values known to the
  coordinate cache. Then the run ends with the missing-field \<open>SystemExit\<close>, whose
  message names the field, frame \<open>j\<close> and the step. The frames read are exactly the
  selected frames before \<open>j\<close>: the failure is not skipped, no frame from \<open>j\<close> on is
  read and no row of such a frame is written.
\<close>

theorem missing_field_aborts:
  assumes "1 \<le> frame_stride cfg"
    and "map_of (steps archive) (step_name cfg) = Some stp"
    and "requested_regions (rootAssembly archive) cfg = Inr regions"
    and "sorted (map frameValue (frames stp))"
    and "j < length (frames stp)"
    and "int j mod frame_stride cfg = 0"
    and "in_window cfg (frameValue (frames stp ! j))"
    and "map_of (fieldOutputs (frames stp ! j)) (field_variable cfg) = None"
    and "\<forall>m<j. int m mod frame_stride cfg = 0 \<and> in_window cfg (frameValue (frames stp ! m)) \<longrightarrow>
           (\<exists>field. map_of (fieldOutputs (frames stp ! m)) (field_variable cfg) = Some field
              \<and> (\<forall>(rn, vals) \<in> set (region_iter regions field). \<forall>v \<in> set vals.
                    cached (build_coordinate_cache (map snd (instances (rootAssembly archive)))) v))"
    and "export_temperatures e archive cfg = (err, tr)"
  shows "err = Some (SystemExit (''Field '' @ [CHR 0x27] @ field_variable cfg @ [CHR 0x27]
                  @ '' not stored in frame '' @ str_nat j @ '' of step ''
                  @ [CHR 0x27] @ step_name cfg @ [CHR 0x27] @ ''.''))
     \<and> read_frames tr = selected cfg (take j (frames stp))
     \<and> (\<forall>i \<in> set (read_frames tr). i < j)
     \<and> (\<forall>r \<in> set (data_rows tr). row_frame_index r < int j)"
proof -
  define fs where "fs = frames stp"
  define cc where "cc = build_coordinate_cache (map snd (instances (rootAssembly archive)))"
  define items where "items = plan cfg regions 0 fs"
  from export_main_path [OF assms(1,2,3,10) cc_def items_def [unfolded fs_def]]
  have err: "err = first_error cfg cc items"
    and rd: "read_frames tr = fetched (takeWhile (item_ok cc) items)"
    and rows: "data_rows tr = emitted cc (takeWhile (item_ok cc) items)"
    by simp_all
  have first: "\<forall>m<j. int (0 + m) mod frame_stride cfg = 0 \<and> in_window cfg (frameValue (fs ! m))
       \<longrightarrow> map_of (fieldOutputs (fs ! m)) (field_variable cfg) \<noteq> None"
    using assms(9) unfolding fs_def by fastforce
  have j: "j < length fs" "int (0 + j) mod frame_stride cfg = 0"
    "in_window cfg (frameValue (fs ! j))"
    "map_of (fieldOutputs (fs ! j)) (field_variable cfg) = None"
    using assms(5-8) by (simp_all add: fs_def)
  from plan_missing [OF assms(4) [folded fs_def] j first, of regions]
  obtain pre where pre: "items = pre @ [Missing j]"
    and idx: "\<forall>it \<in> set pre. item_index it < j \<and> (\<forall>k. it \<noteq> Missing k)"
    by (auto simp: items_def)
  have ok: "\<forall>it \<in> set pre. item_ok cc it"
  proof
    fix it assume it: "it \<in> set pre"
    show "item_ok cc it"
    proof (cases it)
      case (Fetch i)
      then show ?thesis by simp
    next
      case (Missing k)
      with idx it show ?thesis by blast
    next
      case (Emit fi t rn v)
      with it pre have "Emit fi t rn v \<in> set (plan cfg regions 0 fs)" by (simp add: items_def)
      from plan_emit_origin [OF this] obtain field vals where
        o: "int fi mod frame_stride cfg = 0" "in_window cfg (frameValue (fs ! fi))"
          "map_of (fieldOutputs (fs ! fi)) (field_variable cfg) = Some field"
          "(rn, vals) \<in> set (region_iter regions field)" "v \<in> set vals"
        by auto
      from idx it Emit have "fi < j" by fastforce
      with assms(9) o(1,2,3) have "\<forall>(rn, vals) \<in> set (region_iter regions field). \<forall>v \<in> set vals. cached cc v"
        unfolding fs_def cc_def by fastforce
      with o(4,5) have "cached cc v" by blast
      with Emit show ?thesis by (simp add: cached_def)
    qed
  qed
  from first_error_all_ok_missing [OF ok, of cfg j]
  have e: "first_error cfg cc items = Some (SystemExit (missing_field_msg cfg j))"
    and T: "takeWhile (item_ok cc) items = pre"
    unfolding pre by simp_all
  have c1: "err = Some (SystemExit (''Field '' @ [CHR 0x27] @ field_variable cfg @ [CHR 0x27]
                  @ '' not stored in frame '' @ str_nat j @ '' of step ''
                  @ [CHR 0x27] @ step_name cfg @ [CHR 0x27] @ ''.''))"
    unfolding err e by (simp add: missing_field_msg_def)
  have "fetched items = sel cfg 0 (take j fs)"
    unfolding items_def by (rule plan_missing_fetched [OF assms(4) [folded fs_def] j first])
  moreover have "fetched items = fetched pre" by (simp add: pre fetched_append)
  moreover have "read_frames tr = fetched pre" by (simp only: rd T)
  ultimately have c2: "read_frames tr = selected cfg (take j (frames stp))"
    by (simp add: sel_selected fs_def)
  have c3: "\<forall>i \<in> set (read_frames tr). i < j"
    unfolding rd T using idx by (fastforce dest: fetched_subset)
  have c4: "\<forall>r \<in> set (data_rows tr). row_frame_index r < int j"
  proof
    fix r assume "r \<in> set (data_rows tr)"
    from emitted_subset [OF this [unfolded rows T]]
    obtain fi t rn v c where "Emit fi t rn v \<in> set pre" "r = data_row fi t rn v c"
      by blast
    with idx show "row_frame_index r < int j" by fastforce
  qed
  from c1 c2 c3 c4 show ?thesis by blast
qed

theorem missing_field_aborts_witness:
  "1 \<le> frame_stride plain_cfg
   \<and> sorted (map frameValue [demo_frame 0, demo_frame 1, bare_frame 2])
   \<and> int 2 mod frame_stride plain_cfg = 0
   \<and> in_window plain_cfg (frameValue ([demo_frame 0, demo_frame 1, bare_frame 2] ! 2))
   \<and> map_of (fieldOutputs ([demo_frame 0, demo_frame 1, bare_frame 2] ! 2))
         (field_variable plain_cfg) = None
   \<and> fst (export_temperatures posix (odb_of [demo_frame 0, demo_frame 1, bare_frame 2]) plain_cfg)
       = Some (SystemExit ''Field 'NT11' not stored in frame 2 of step 'HeatStep'.'')
   \<and> read_frames (snd (export_temperatures posix
          (odb_of [demo_frame 0, demo_frame 1, bare_frame 2]) plain_cfg)) = [0, 1]"
proof -
  let ?fs = "[demo_frame 0, demo_frame 1, bare_frame 2]"
  let ?cc = "build_coordinate_cache (map snd (instances (rootAssembly (odb_of ?fs))))"
  have h1: "1 \<le> frame_stride plain_cfg" by (simp add: plain_cfg_def)
  have h2: "map_of (steps (odb_of ?fs)) (step_name plain_cfg) = Some \<lparr>frames = ?fs\<rparr>"
    by (simp add: odb_of_def plain_cfg_def)
  have h3: "requested_regions (rootAssembly (odb_of ?fs)) plain_cfg = Inr None"
    by (simp add: requested_regions_def plain_cfg_def)
  have h4: "sorted (map frameValue (frames \<lparr>frames = ?fs\<rparr>))"
    by (simp add: demo_frame_def bare_frame_def)
  have h5: "2 < length (frames \<lparr>frames = ?fs\<rparr>)" by simp
  have h6: "int 2 mod frame_stride plain_cfg = 0" by (simp add: plain_cfg_def)
  have h7: "in_window plain_cfg (frameValue (frames \<lparr>frames = ?fs\<rparr> ! 2))"
    by (simp add: in_window_def plain_cfg_def)
  have h8: "map_of (fieldOutputs (frames \<lparr>frames = ?fs\<rparr> ! 2)) (field_variable plain_cfg) = None"
    by (simp add: bare_frame_def)
  have ok: "\<exists>field. map_of (fieldOutputs (frames \<lparr>frames = ?fs\<rparr> ! m)) (field_variable plain_cfg) = Some field
              \<and> (\<forall>(rn, vals) \<in> set (region_iter None field). \<forall>v \<in> set vals. cached ?cc v)"
    if "m < 2" for m
  proof -
    from that have "m = 0 \<or> m = 1" by auto
    then show ?thesis
      by (auto simp: demo_frame_def demo_field_def plain_cfg_def region_iter_def odb_of_def
            demo_assembly_def cached_def lookup_coords_def build_coordinate_cache_def)
  qed
  then have h9: "\<forall>m<2. int m mod frame_stride plain_cfg = 0
        \<and> in_window plain_cfg (frameValue (frames \<lparr>frames = ?fs\<rparr> ! m)) \<longrightarrow>
           (\<exists>field. map_of (fieldOutputs (frames \<lparr>frames = ?fs\<rparr> ! m)) (field_variable plain_cfg) = Some field
              \<and> (\<forall>(rn, vals) \<in> set (region_iter None field). \<forall>v \<in> set vals. cached ?cc v))"
    by blast
  have msg: "''Field '' @ [CHR 0x27] @ field_variable plain_cfg @ [CHR 0x27]
                  @ '' not stored in frame '' @ str_nat 2 @ '' of step ''
                  @ [CHR 0x27] @ step_name plain_cfg @ [CHR 0x27] @ ''.''
        = ''Field 'NT11' not stored in frame 2 of step 'HeatStep'.''"
    by (simp add: plain_cfg_def str_nat.simps)
  have sel: "selected plain_cfg (take 2 (frames \<lparr>frames = ?fs\<rparr>)) = [0, 1]"
    by (simp add: selected_def in_window_def plain_cfg_def upt_rec)
  from missing_field_aborts [OF h1 h2 h3 h4 h5 h6 h7 h8 h9 export_pair]
  have "fst (export_temperatures posix (odb_of ?fs) plain_cfg)
       = Some (SystemExit ''Field 'NT11' not stored in frame 2 of step 'HeatStep'.'')
     \<and> read_frames (snd (export_temperatures posix (odb_of ?fs) plain_cfg)) = [0, 1]"
    unfolding msg sel by blast
  with h1 h4 h6 h7 h8 show ?thesis by simp
qed

section \<open>Claims about region resolution\<close>

lemma resolve_node_sets_fails:
  "n \<in> set ns \<Longrightarrow> map_of (nodeSets ra) n = None \<Longrightarrow>
     \<exists>n0 \<in> set ns. map_of (nodeSets ra) n0 = None
        \<and> resolve_node_sets ra ns =
            Inl (SystemExit (''Node set '' @ [CHR 0x27] @ n0 @ [CHR 0x27]
                   @ '' not found in the ODB. Available sets: ''
                   @ join '', '' (sort (map fst (nodeSets ra)))))"
proof (induction ns)
  case Nil
  then show ?case by simp
next
  case (Cons a ns)
  show ?case
  proof (cases "map_of (nodeSets ra) a")
    case None
    then show ?thesis by simp
  next
    case (Some r)
    with Cons.prems have "n \<in> set ns" by auto
    from Cons.IH [OF this Cons.prems(2)] Some show ?thesis by auto
  qed
qed


text \<open>
  Claim C6. If a requested node-set name is missing from the catalog, the run ends with
  an exception before any frame is read, any file opened or any row written. When the
  stride is valid and the step exists the exception is the \<open>SystemExit\<close> of
  \<open>_resolve_node_sets\<close>, whose message names a missing requested set and lists the
  sorted names of the whole catalog.
\<close>

theorem unknown_node_set_fails_first:
  assumes "node_sets cfg = Some ns"
    and "n \<in> set ns"
    and "map_of (nodeSets (rootAssembly archive)) n = None"
    and "export_temperatures e archive cfg = (err, tr)"
  shows "err \<noteq> None \<and> read_frames tr = [] \<and> data_rows tr = [] \<and> opened_files tr = []
     \<and> (1 \<le> frame_stride cfg \<and> map_of (steps archive) (step_name cfg) \<noteq> None \<longrightarrow>
          tr = [OpenOdb (odb_path cfg)]
          \<and> (\<exists>n0 \<in> set ns. map_of (nodeSets (rootAssembly archive)) n0 = None
                \<and> err = Some (SystemExit (''Node set '' @ [CHR 0x27] @ n0 @ [CHR 0x27]
                     @ '' not found in the ODB. Available sets: ''
                     @ join '', '' (sort (map fst (nodeSets (rootAssembly archive))))))))"
proof -
  from resolve_node_sets_fails [OF assms(2,3)] obtain n0 where
    n0: "n0 \<in> set ns" "map_of (nodeSets (rootAssembly archive)) n0 = None"
    and res: "resolve_node_sets (rootAssembly archive) ns =
            Inl (SystemExit (''Node set '' @ [CHR 0x27] @ n0 @ [CHR 0x27]
                   @ '' not found in the ODB. Available sets: ''
                   @ join '', '' (sort (map fst (nodeSets (rootAssembly archive))))))"
    by blast
  from assms(2) obtain a ns' where ns: "ns = a # ns'" by (cases ns) auto
  have req: "requested_regions (rootAssembly archive) cfg =
            Inl (SystemExit (''Node set '' @ [CHR 0x27] @ n0 @ [CHR 0x27]
                   @ '' not found in the ODB. Available sets: ''
                   @ join '', '' (sort (map fst (nodeSets (rootAssembly archive))))))"
    unfolding requested_regions_def assms(1) using res by (simp add: ns)
  then have early: "err \<noteq> None \<and> read_frames tr = [] \<and> data_rows tr = [] \<and> opened_files tr = []"
    using export_early_exit [OF assms(4)] by blast
  have "tr = [OpenOdb (odb_path cfg)]
          \<and> err = Some (SystemExit (''Node set '' @ [CHR 0x27] @ n0 @ [CHR 0x27]
                     @ '' not found in the ODB. Available sets: ''
                     @ join '', '' (sort (map fst (nodeSets (rootAssembly archive))))))"
    if "1 \<le> frame_stride cfg" "map_of (steps archive) (step_name cfg) \<noteq> None"
    using that assms(4) req
    by (auto simp: export_temperatures_def Let_def)
  with early n0 show ?thesis by blast
qed

theorem unknown_node_set_witness:
  "node_sets (plain_cfg\<lparr>node_sets := Some [''GHOST'']\<rparr>) = Some [''GHOST'']
   \<and> ''GHOST'' \<in> set [''GHOST'']
   \<and> map_of (nodeSets (rootAssembly demo_odb)) ''GHOST'' = None
   \<and> export_temperatures posix demo_odb (plain_cfg\<lparr>node_sets := Some [''GHOST'']\<rparr>)
       = (Some (SystemExit ''Node set 'GHOST' not found in the ODB. Available sets: A, B''),
          [OpenOdb ''Job-4.odb''])"
proof -
  let ?cfg = "plain_cfg\<lparr>node_sets := Some [''GHOST'']\<rparr>"
  have h1: "node_sets ?cfg = Some [''GHOST'']" by simp
  have h2: "''GHOST'' \<in> set [''GHOST'']" by simp
  have h3: "map_of (nodeSets (rootAssembly demo_odb)) ''GHOST'' = None"
    by (simp add: demo_odb_def demo_assembly_def)
  have stride: "1 \<le> frame_stride ?cfg" by (simp add: plain_cfg_def)
  have stp: "map_of (steps demo_odb) (step_name ?cfg) \<noteq> None"
    by (simp add: demo_odb_def plain_cfg_def)
  have names: "join '', '' (sort (map fst (nodeSets (rootAssembly demo_odb)))) = ''A, B''"
    by (simp add: demo_odb_def demo_assembly_def)
  from unknown_node_set_fails_first [OF h1 h2 h3 export_pair] stride stp
  have "snd (export_temperatures posix demo_odb ?cfg) = [OpenOdb (odb_path ?cfg)]
     \<and> (\<exists>n0 \<in> set [''GHOST'']. fst (export_temperatures posix demo_odb ?cfg) =
           Some (SystemExit (''Node set '' @ [CHR 0x27] @ n0 @ [CHR 0x27]
                     @ '' not found in the ODB. Available sets: ''
                     @ join '', '' (sort (map fst (nodeSets (rootAssembly demo_odb)))))))"
    by blast
  then have "export_temperatures posix demo_odb ?cfg
       = (Some (SystemExit ''Node set 'GHOST' not found in the ODB. Available sets: A, B''),
          [OpenOdb ''Job-4.odb''])"
    unfolding names by (simp add: prod_eq_iff plain_cfg_def)
  with h1 h2 h3 show ?thesis by simp
qed

section \<open>Claims about split mode\<close>



section \<open>Claims about releasing resources\<close>

text \<open>
  Claim C2. The archive is opened on line 75, but the \<open>try\<close> whose \<open>finally\<close> closes
  it starts on line 94. An unknown step name raises in between: the run ends with the
  archive opened and never closed. A failure inside the \<open>try\<close> (here a missing field)
  does close it.
\<close>

theorem unknown_step_leaves_archive_open:
  "export_temperatures posix demo_odb (plain_cfg\<lparr>step_name := ''Cooling''\<rparr>)
     = (Some (SystemExit ''Step 'Cooling' not found in ODB 'Job-4.odb'. Available steps: HeatStep''),
        [OpenOdb ''Job-4.odb''])
   \<and> CloseOdb \<notin> set (snd (export_temperatures posix demo_odb (plain_cfg\<lparr>step_name := ''Cooling''\<rparr>)))
   \<and> CloseOdb \<in> set (snd (export_temperatures posix
          (odb_of [demo_frame 0, demo_frame 1, bare_frame 2]) plain_cfg))"
  by (simp add: demo_defs2 run_defs unknown_step_msg_def missing_field_msg_def str_nat.simps)

section \<open>The rows of a work list\<close>

lemma ideal_append: "ideal cc (xs @ ys) = ideal cc xs @ ideal cc ys"
  by (induction cc xs rule: ideal.induct) simp_all

lemma emitted_append: "emitted cc (xs @ ys) = emitted cc xs @ emitted cc ys"
  by (induction cc xs rule: emitted.induct) (simp_all split: sum.splits)

lemma emitted_ideal: "\<forall>it \<in> set xs. item_ok cc it \<Longrightarrow> emitted cc xs = ideal cc xs"
proof (induction xs)
  case Nil
  then show ?case by simp
next
  case (Cons a xs)
  then show ?case
    by (cases a) (auto simp: coords_of_def split: sum.splits)
qed

lemma emitted_takeWhile_ideal:
  "emitted cc (takeWhile (item_ok cc) xs) = ideal cc (takeWhile (item_ok cc) xs)"
  by (rule emitted_ideal) (auto dest: set_takeWhileD)

lemma ideal_map_Emit:
  "ideal cc (map (Emit fi t rn) vals) = map (\<lambda>v. data_row fi t rn v (coords_of cc v)) vals"
  by (induction vals) simp_all





lemma exec_invariant:
  assumes "exec cfg gw cc items s = (err, s')"
    and "P s"
    and "\<And>s i. P s \<Longrightarrow> P (s\<lparr>trace := trace s @ [ReadField i]\<rparr>)"
    and "\<And>s fi t rn v c w s1. P s \<Longrightarrow> get_writer gw rn s = (w, s1) \<Longrightarrow>
            P (s1\<lparr>trace := trace s1 @ [WriteRow w (data_row fi t rn v c)]\<rparr>)"
  shows "P s'"
  using assms(1,2)
proof (induction items arbitrary: s)
  case Nil
  then show ?case by simp
next
  case (Cons a items)
  show ?case
  proof (cases a)
    case (Fetch i)
    with Cons.prems have "exec cfg gw cc items (s\<lparr>trace := trace s @ [ReadField i]\<rparr>) = (err, s')"
      by simp
    from Cons.IH [OF this assms(3) [OF Cons.prems(2)]] show ?thesis .
  next
    case (Missing i)
    with Cons.prems show ?thesis by simp
  next
    case (Emit fi t rn v)
    show ?thesis
    proof (cases "lookup_coords cc v")
      case (Inl k)
      with Cons.prems Emit show ?thesis by simp
    next
      case (Inr c)
      obtain w s1 where gw: "get_writer gw rn s = (w, s1)" by (cases "get_writer gw rn s")
      from Cons.prems(1) Emit Inr gw
      have run: "exec cfg gw cc items
                   (s1\<lparr>trace := trace s1 @ [WriteRow w (data_row fi t rn v c)]\<rparr>) = (err, s')"
        by simp
      from Cons.IH [OF run assms(4) [OF Cons.prems(2) gw]] show ?thesis .
    qed
  qed
qed

text \<open>A run that reaches the loop: the writer chosen, the loop run as a work list, and
  the \<open>finally\<close> block.\<close>

lemma export_run:
  assumes "1 \<le> frame_stride cfg"
    and "map_of (steps archive) (step_name cfg) = Some stp"
    and "requested_regions (rootAssembly archive) cfg = Inr regions"
    and "export_temperatures e archive cfg = (err, tr)"
  obtains gw s1 s2 where
    "make_get_writer e cfg (header_row (field_variable cfg))
       \<lparr>writer_handles = [], next_handle = 0, trace = [OpenOdb (odb_path cfg)]\<rparr> = (gw, s1)"
    and "exec cfg gw (build_coordinate_cache (map snd (instances (rootAssembly archive))))
           (plan cfg regions 0 (frames stp)) s1 = (err, s2)"
    and "tr = finally_block s2"
proof -
  define cc where "cc = build_coordinate_cache (map snd (instances (rootAssembly archive)))"
  obtain gw s1 where mk:
    "make_get_writer e cfg (header_row (field_variable cfg))
       \<lparr>writer_handles = [], next_handle = 0, trace = [OpenOdb (odb_path cfg)]\<rparr> = (gw, s1)"
    by (cases "make_get_writer e cfg (header_row (field_variable cfg))
       \<lparr>writer_handles = [], next_handle = 0, trace = [OpenOdb (odb_path cfg)]\<rparr>")
  obtain err' s2 where run: "frames_loop cfg gw cc regions 0 (frames stp) s1 = (err', s2)"
    by (cases "frames_loop cfg gw cc regions 0 (frames stp) s1")
  from assms mk run have res: "err = err'" "tr = finally_block s2"
    by (auto simp: export_temperatures_def Let_def cc_def)
  from run have "exec cfg gw cc (plan cfg regions 0 (frames stp)) s1 = (err, s2)"
    by (simp add: frames_loop_exec res)
  with mk res that show thesis unfolding cc_def by blast
qed


lemma Fetch_notin_region_items: "Fetch i \<notin> set (region_items fi t ri)"
  by (auto simp: region_items_def)


text \<open>Where a fetched frame sits in the work list: after items of earlier frames only,
  and followed at once by the items of its regions and values.\<close>

lemma plan_frame_items:
  "Fetch i \<in> set (plan cfg regions i0 fs) \<Longrightarrow>
     \<exists>A B field. i0 \<le> i \<and> i - i0 < length fs
       \<and> map_of (fieldOutputs (fs ! (i - i0))) (field_variable cfg) = Some field
       \<and> plan cfg regions i0 fs =
            A @ Fetch i # region_items i (frameValue (fs ! (i - i0))) (region_iter regions field) @ B
       \<and> (\<forall>it \<in> set A. item_index it < i)"
proof (induction fs arbitrary: i0)
  case Nil
  then show ?case by simp
next
  case (Cons f fs)
  have tail: ?case if "Fetch i \<in> set (plan cfg regions (Suc i0) fs)"
    and pl: "\<exists>H. plan cfg regions i0 (f # fs) = H @ plan cfg regions (Suc i0) fs
                \<and> (\<forall>it \<in> set H. item_index it = i0)"
  proof -
    from Cons.IH [OF that(1)] obtain A B field where
      IH: "Suc i0 \<le> i" "i - Suc i0 < length fs"
        "map_of (fieldOutputs (fs ! (i - Suc i0))) (field_variable cfg) = Some field"
        "plan cfg regions (Suc i0) fs =
            A @ Fetch i # region_items i (frameValue (fs ! (i - Suc i0))) (region_iter regions field) @ B"
        "\<forall>it \<in> set A. item_index it < i"
      by blast
    from pl obtain H where H: "plan cfg regions i0 (f # fs) = H @ plan cfg regions (Suc i0) fs"
      "\<forall>it \<in> set H. item_index it = i0"
      by blast
    from IH(1) have nth: "(f # fs) ! (i - i0) = fs ! (i - Suc i0)"
      by (metis Suc_diff_Suc Suc_le_lessD nth_Cons_Suc)
    have "plan cfg regions i0 (f # fs) =
            (H @ A) @ Fetch i # region_items i (frameValue ((f # fs) ! (i - i0))) (region_iter regions field) @ B"
      unfolding H(1) IH(4) nth by simp
    moreover have "\<forall>it \<in> set (H @ A). item_index it < i"
      using H(2) IH(1,5) by auto
    moreover have "i0 \<le> i" "i - i0 < length (f # fs)"
      using IH(1,2) by auto
    ultimately show ?thesis using IH(3) nth by metis
  qed
  show ?case
  proof (cases "int i0 mod frame_stride cfg \<noteq> 0 \<or> below_start cfg (frameValue f)")
    case True
    then have eq: "plan cfg regions i0 (f # fs) = plan cfg regions (Suc i0) fs" by auto
    show ?thesis
    proof (rule tail)
      from Cons.prems eq show "Fetch i \<in> set (plan cfg regions (Suc i0) fs)" by simp
      from eq show "\<exists>H. plan cfg regions i0 (f # fs) = H @ plan cfg regions (Suc i0) fs
                \<and> (\<forall>it \<in> set H. item_index it = i0)"
        by (intro exI [of _ "[]"]) simp
    qed
  next
    case sel: False
    show ?thesis
    proof (cases "above_end cfg (frameValue f)")
      case True
      with sel Cons.prems show ?thesis by simp
    next
      case False
      show ?thesis
      proof (cases "map_of (fieldOutputs f) (field_variable cfg)")
        case None
        with sel False Cons.prems show ?thesis by simp
      next
        case (Some field)
        define RI where "RI = region_items i0 (frameValue f) (region_iter regions field)"
        from sel False Some
        have pl: "plan cfg regions i0 (f # fs) = Fetch i0 # RI @ plan cfg regions (Suc i0) fs"
          by (simp add: RI_def)
        show ?thesis
        proof (cases "i = i0")
          case True
          have "plan cfg regions i0 (f # fs) =
              [] @ Fetch i # region_items i (frameValue ((f # fs) ! (i - i0))) (region_iter regions field)
                 @ plan cfg regions (Suc i0) fs"
            using pl True by (simp add: RI_def)
          with True Some show ?thesis
            by (intro exI [of _ "[]"] exI [of _ "plan cfg regions (Suc i0) fs"] exI [of _ field]) simp
        next
          case False
          show ?thesis
          proof (rule tail)
            from Cons.prems pl False show "Fetch i \<in> set (plan cfg regions (Suc i0) fs)"
              by (auto simp: RI_def Fetch_notin_region_items)
            show "\<exists>H. plan cfg regions i0 (f # fs) = H @ plan cfg regions (Suc i0) fs
                \<and> (\<forall>it \<in> set H. item_index it = i0)"
              using pl by (intro exI [of _ "Fetch i0 # RI"]) (auto simp: RI_def item_index_region_items)
          qed
        qed
      qed
    qed
  qed
qed


lemma make_get_writer_headers_ok:
  "make_get_writer e cfg hdr \<lparr>writer_handles = [], next_handle = 0, trace = [OpenOdb p]\<rparr> = (gw, s1)
     \<Longrightarrow> closure_header hdr gw \<and> headers_ok hdr (trace s1)"
  by (auto simp: make_get_writer_def open_writer_def Let_def headers_ok_def
           split: if_splits prod.splits)



section \<open>Claims about the rows\<close>


lemma index_of_append: "a \<notin> set xs \<Longrightarrow> index_of (xs @ ys) a = length xs + index_of ys a"
  by (induction xs) auto

lemma map_fst_region_iter: "map fst (region_iter regions field) = region_names regions"
  by (auto simp: region_iter_def region_names_def split: option.splits list.splits)

lemma ideal_subset:
  "r \<in> set (ideal cc xs) \<Longrightarrow>
     \<exists>fi t rn v. Emit fi t rn v \<in> set xs \<and> r = data_row fi t rn v (coords_of cc v)"
proof (induction xs)
  case Nil
  then show ?case by simp
next
  case (Cons a xs)
  have tail: "r \<in> set (ideal cc xs) \<Longrightarrow> ?case"
    using Cons.IH by (metis list.set_intros(2))
  show ?case
  proof (cases a)
    case (Emit fi t rn v)
    with Cons.prems have "r = data_row fi t rn v (coords_of cc v) \<or> r \<in> set (ideal cc xs)"
      by simp
    then show ?thesis
    proof
      assume "r = data_row fi t rn v (coords_of cc v)"
      with Emit show ?thesis by (metis list.set_intros(1))
    qed (rule tail)
  qed (use Cons.prems tail in simp_all)
qed

lemma sorted_region_rows:
  "distinct (pre @ map fst ri) \<Longrightarrow>
     sorted_wrt (row_before (pre @ map fst ri)) (ideal cc (region_items fi t ri))"
proof (induction ri arbitrary: pre)
  case Nil
  then show ?case by (simp add: region_items_def)
next
  case (Cons a ri)
  obtain rn vals where a: "a = (rn, vals)" by (cases a)
  let ?names = "pre @ map fst (a # ri)"
  from Cons.prems a have d: "distinct ((pre @ [rn]) @ map fst ri)" by simp
  have names: "?names = (pre @ [rn]) @ map fst ri" by (simp add: a)
  from Cons.prems a have rn: "rn \<notin> set pre" by auto
  have idx_rn: "index_of ?names rn = length pre"
    using rn by (simp add: a index_of_append)
  have idx_later: "length pre < index_of ?names rn'" if "rn' \<in> fst ` set ri" for rn'
  proof -
    from that d have "rn' \<notin> set (pre @ [rn])" by auto
    then show ?thesis unfolding names by (auto simp: index_of_append)
  qed
  have head: "sorted_wrt (row_before ?names) (ideal cc (map (Emit fi t rn) vals))"
    by (induction vals) (auto simp: row_before_def ideal_map_Emit)
  have tail: "sorted_wrt (row_before ?names) (ideal cc (region_items fi t ri))"
    unfolding names by (rule Cons.IH [OF d])
  have cross: "row_before ?names x y"
    if "x \<in> set (ideal cc (map (Emit fi t rn) vals))" "y \<in> set (ideal cc (region_items fi t ri))"
    for x y
  proof -
    from that(1) obtain v where x: "x = data_row fi t rn v (coords_of cc v)"
      by (auto simp: ideal_map_Emit)
    from ideal_subset [OF that(2)] obtain fi' t' rn' v' where
      y: "Emit fi' t' rn' v' \<in> set (region_items fi t ri)" "y = data_row fi' t' rn' v' (coords_of cc v')"
      by blast
    from y(1) have "fi' = fi" "rn' \<in> fst ` set ri"
      by (auto simp: region_items_def intro: rev_image_eqI)
    with idx_later [of rn'] idx_rn x y(2) show ?thesis
      by (simp add: row_before_def)
  qed
  show ?case
    unfolding a region_items_Cons ideal_append sorted_wrt_append
    using head tail cross by (auto simp: a)
qed

lemma sorted_plan_rows:
  "distinct (region_names regions) \<Longrightarrow>
     sorted_wrt (row_before (region_names regions)) (ideal cc (plan cfg regions i0 fs))"
proof (induction fs arbitrary: i0)
  case Nil
  then show ?case by simp
next
  case (Cons f fs)
  note tail = Cons.IH [OF Cons.prems, of "Suc i0"]
  show ?case
  proof (cases "map_of (fieldOutputs f) (field_variable cfg)")
    case None
    with tail show ?thesis by simp
  next
    case (Some field)
    define RI where "RI = region_items i0 (frameValue f) (region_iter regions field)"
    have head: "sorted_wrt (row_before (region_names regions)) (ideal cc RI)"
      using sorted_region_rows [of "[]" "region_iter regions field" cc i0 "frameValue f"] Cons.prems
      by (simp add: map_fst_region_iter RI_def)
    have cross: "row_before (region_names regions) x y"
      if "x \<in> set (ideal cc RI)" "y \<in> set (ideal cc (plan cfg regions (Suc i0) fs))" for x y
    proof -
      from ideal_subset [OF that(1)] obtain fi t rn v where
        x: "Emit fi t rn v \<in> set RI" "x = data_row fi t rn v (coords_of cc v)" by blast
      from ideal_subset [OF that(2)] obtain fi' t' rn' v' where
        y: "Emit fi' t' rn' v' \<in> set (plan cfg regions (Suc i0) fs)"
           "y = data_row fi' t' rn' v' (coords_of cc v')" by blast
      from item_index_region_items [OF x(1) [unfolded RI_def]] have "fi = i0" by simp
      moreover from plan_index_lower [OF y(1)] have "Suc i0 \<le> fi'" by simp
      ultimately show ?thesis using x(2) y(2) by (simp add: row_before_def)
    qed
    from head tail cross Some show ?thesis
      by (auto simp: ideal_append sorted_wrt_append RI_def)
  qed
qed

lemma resolve_node_sets_order:
  "resolve_node_sets ra ns = Inr rs \<Longrightarrow> map (map_of (nodeSets ra)) ns = map Some rs"
  by (induction ns arbitrary: rs) (auto split: option.splits sum.splits)

text \<open>
  Claim C7. The rows are written in the order of their frame index and, within a frame,
  in the order of the resolved regions (whose names are taken distinct); resolution
  returns the catalog entries of the requested names in request order.
\<close>

theorem rows_follow_frame_then_region_order:
  assumes "map_of (steps archive) (step_name cfg) = Some stp"
    and "requested_regions (rootAssembly archive) cfg = Inr regions"
    and "distinct (region_names regions)"
    and "export_temperatures e archive cfg = (err, tr)"
  shows "sorted_wrt (row_before (region_names regions)) (data_rows tr)
     \<and> sorted (map row_frame_index (data_rows tr))
     \<and> (\<forall>ns. node_sets cfg = Some ns \<and> ns \<noteq> [] \<longrightarrow>
           (\<exists>rs. regions = Some rs
              \<and> map (map_of (nodeSets (rootAssembly archive))) ns = map Some rs))"
proof -
  define cc where "cc = build_coordinate_cache (map snd (instances (rootAssembly archive)))"
  define items where "items = plan cfg regions 0 (frames stp)"
  have order: "\<forall>ns. node_sets cfg = Some ns \<and> ns \<noteq> [] \<longrightarrow>
           (\<exists>rs. regions = Some rs
              \<and> map (map_of (nodeSets (rootAssembly archive))) ns = map Some rs)"
  proof (intro allI impI)
    fix ns assume ns: "node_sets cfg = Some ns \<and> ns \<noteq> []"
    then obtain a ns' where "ns = a # ns'" by (cases ns) auto
    with ns assms(2) obtain rs where "resolve_node_sets (rootAssembly archive) ns = Inr rs"
      "regions = Some rs"
      by (auto simp: requested_regions_def simp del: resolve_node_sets.simps split: sum.splits)
    with resolve_node_sets_order [OF this(1)]
    show "\<exists>rs. regions = Some rs
              \<and> map (map_of (nodeSets (rootAssembly archive))) ns = map Some rs"
      by blast
  qed
  have srt: "sorted_wrt (row_before (region_names regions)) (data_rows tr)"
  proof (cases "frame_stride cfg < 1")
    case True
    with export_early_exit [OF assms(4)] show ?thesis by simp
  next
    case False
    then have "1 \<le> frame_stride cfg" by simp
    from export_main_path [OF this assms(1,2,4) cc_def items_def]
    have rows: "data_rows tr = ideal cc (takeWhile (item_ok cc) items)"
      by (simp add: emitted_takeWhile_ideal)
    have "ideal cc items = ideal cc (takeWhile (item_ok cc) items) @ ideal cc (dropWhile (item_ok cc) items)"
      by (simp flip: ideal_append)
    with sorted_plan_rows [OF assms(3), of cc cfg 0 "frames stp"]
    show ?thesis unfolding rows items_def by (simp add: sorted_wrt_append)
  qed
  have "sorted (map row_frame_index (data_rows tr))"
    unfolding sorted_map
    by (rule sorted_wrt_mono_rel [OF _ srt]) (auto simp: row_before_def)
  with srt order show ?thesis by blast
qed

lemma region_items_frame_values:
  "region_items fi t (region_iter regions field)
     = map (\<lambda>(rn, v). Emit fi t rn v) (frame_values regions field)"
proof -
  have "region_items fi t ri = map (\<lambda>(rn, v). Emit fi t rn v)
          (concat (map (\<lambda>(rn, vals). map (Pair rn) vals) ri))" for ri
    by (induction ri) (auto simp: region_items_def)
  then show ?thesis by (simp add: frame_values_def)
qed

lemma ideal_map_pairs:
  "ideal cc (map (\<lambda>(rn, v). Emit fi t rn v) xs)
     = map (\<lambda>(rn, v). data_row fi t rn v (coords_of cc v)) xs"
  by (induction xs) auto

lemma item_ok_Emit_cached: "item_ok cc (Emit fi t rn v) = cached cc v"
  by (simp add: cached_def)

lemma takeWhile_ok_pairs:
  "takeWhile (item_ok cc) (map (\<lambda>(rn, v). Emit fi t rn v) xs)
     = map (\<lambda>(rn, v). Emit fi t rn v) (takeWhile (\<lambda>(rn, v). cached cc v) xs)"
  by (induction xs) (auto simp: cached_def)

lemma dropWhile_ok_pairs:
  "dropWhile (item_ok cc) (map (\<lambda>(rn, v). Emit fi t rn v) xs)
     = map (\<lambda>(rn, v). Emit fi t rn v) (dropWhile (\<lambda>(rn, v). cached cc v) xs)"
  by (induction xs) (auto simp: cached_def)

text \<open>
  Claim C9. If a value of a frame that was read has no entry in the coordinate cache,
  the run ends with the \<open>KeyError\<close> of the first such value of that frame. No later
  frame is read, and the rows written for the frame are exactly those of the values
  before that first one: none for it, none for any value after it.
\<close>

theorem missing_coordinate_aborts:
  assumes "map_of (steps archive) (step_name cfg) = Some stp"
    and "requested_regions (rootAssembly archive) cfg = Inr regions"
    and "export_temperatures e archive cfg = (err, tr)"
    and "i \<in> set (read_frames tr)"
    and "map_of (fieldOutputs (frames stp ! i)) (field_variable cfg) = Some field"
    and "(rn, vals) \<in> set (region_iter regions field)"
    and "v \<in> set vals"
    and "\<not> cached (build_coordinate_cache (map snd (instances (rootAssembly archive)))) v"
  shows "(\<exists>rn0 v0 rest k0.
            dropWhile (\<lambda>(rn, v). cached (build_coordinate_cache (map snd (instances (rootAssembly archive)))) v)
              (frame_values regions field) = (rn0, v0) # rest
            \<and> lookup_coords (build_coordinate_cache (map snd (instances (rootAssembly archive)))) v0 = Inl k0
            \<and> err = Some (KeyError k0))
     \<and> (\<forall>j \<in> set (read_frames tr). j \<le> i)
     \<and> (\<forall>r \<in> set (data_rows tr). row_frame_index r \<le> int i)
     \<and> filter (\<lambda>r. row_frame_index r = int i) (data_rows tr)
         = map (\<lambda>(rn, v). data_row i (frameValue (frames stp ! i)) rn v
                  (coords_of (build_coordinate_cache (map snd (instances (rootAssembly archive)))) v))
             (takeWhile (\<lambda>(rn, v). cached (build_coordinate_cache (map snd (instances (rootAssembly archive)))) v)
                (frame_values regions field))"
proof -
  define cc where "cc = build_coordinate_cache (map snd (instances (rootAssembly archive)))"
  define items where "items = plan cfg regions 0 (frames stp)"
  define T where "T = takeWhile (item_ok cc) items"
  define t where "t = frameValue (frames stp ! i)"
  define FV where "FV = frame_values regions field"
  define RI where "RI = map (\<lambda>(rn, v). Emit i t rn v) FV"
  have stride: "1 \<le> frame_stride cfg"
  proof (rule ccontr)
    assume "\<not> 1 \<le> frame_stride cfg"
    then have "frame_stride cfg < 1" by simp
    with export_early_exit [OF assms(3)] assms(4) show False by simp
  qed
  from export_main_path [OF stride assms(1,2,3) cc_def items_def]
  have err: "err = first_error cfg cc items"
    and rd: "read_frames tr = fetched T"
    and rows: "data_rows tr = emitted cc T"
    by (simp_all add: T_def)
  from assms(4) have inT: "Fetch i \<in> set T" unfolding rd by (rule fetched_subset)
  then have "Fetch i \<in> set (plan cfg regions 0 (frames stp))"
    unfolding T_def items_def by (metis set_takeWhileD)
  from plan_frame_items [OF this] assms(5) obtain A B where
    items_eq: "items = A @ Fetch i # RI @ B"
    and A: "\<forall>it \<in> set A. item_index it < i"
    by (auto simp: items_def RI_def FV_def t_def region_items_frame_values)
  have A_ok: "\<forall>it \<in> set A. item_ok cc it"
  proof (rule ccontr)
    assume "\<not> (\<forall>it \<in> set A. item_ok cc it)"
    then obtain x where "x \<in> set A" "\<not> item_ok cc x" by blast
    then have "T = takeWhile (item_ok cc) A"
      unfolding T_def items_eq by (rule takeWhile_append1)
    with inT have "Fetch i \<in> set A" by (metis set_takeWhileD)
    with A show False by fastforce
  qed
  from assms(6,7) have "(rn, v) \<in> set FV"
    by (force simp: FV_def frame_values_def)
  moreover from assms(8) have "\<not> cached cc v" by (simp add: cc_def)
  ultimately have bad: "\<exists>x \<in> set FV. \<not> (case x of (rn, v) \<Rightarrow> cached cc v)"
    and x: "Emit i t rn v \<in> set RI" "\<not> item_ok cc (Emit i t rn v)"
    by (force simp: RI_def cached_def)+
  have T_eq: "T = A @ Fetch i # takeWhile (item_ok cc) RI"
    unfolding T_def items_eq
    using A_ok takeWhile_append1 [where P = "item_ok cc" and xs = RI and ys = B, OF x]
    by (simp add: takeWhile_append2)
  have drop: "dropWhile (item_ok cc) items = dropWhile (item_ok cc) RI @ B"
    unfolding items_eq using A_ok x by (simp add: dropWhile_append2 dropWhile_append1)
  from bad have "dropWhile (\<lambda>(rn, v). cached cc v) FV \<noteq> []" by (simp add: dropWhile_eq_Nil_conv)
  then obtain rn0 v0 rest where d: "dropWhile (\<lambda>(rn, v). cached cc v) FV = (rn0, v0) # rest"
    by (cases "dropWhile (\<lambda>(rn, v). cached cc v) FV") auto
  then have "\<not> cached cc v0"
    using hd_dropWhile [of "\<lambda>(rn, v). cached cc v" FV] by auto
  then obtain k0 where k0: "lookup_coords cc v0 = Inl k0"
    by (auto simp: cached_def split: sum.splits)
  have c1: "err = Some (KeyError k0)"
    unfolding err first_error_def drop RI_def dropWhile_ok_pairs d by (simp add: k0)
  have c2: "\<forall>j \<in> set (read_frames tr). j \<le> i"
  proof
    fix j assume "j \<in> set (read_frames tr)"
    then have "j \<in> set (fetched A) \<or> j = i"
      unfolding rd T_eq RI_def takeWhile_ok_pairs
      by (auto simp: fetched_append dest!: fetched_subset)
    with A show "j \<le> i" by (auto dest!: fetched_subset)
  qed
  have rowsA: "row_frame_index r < int i" if "r \<in> set (emitted cc A)" for r
  proof -
    from emitted_subset [OF that] obtain fi t' rn' v' c where
      "Emit fi t' rn' v' \<in> set A" "r = data_row fi t' rn' v' c" by blast
    with A show ?thesis by fastforce
  qed
  have here: "emitted cc (takeWhile (item_ok cc) RI)
      = map (\<lambda>(rn, v). data_row i t rn v (coords_of cc v)) (takeWhile (\<lambda>(rn, v). cached cc v) FV)"
    by (simp only: emitted_takeWhile_ideal)
       (simp only: RI_def takeWhile_ok_pairs ideal_map_pairs)
  have rows_eq: "data_rows tr = emitted cc A
      @ map (\<lambda>(rn, v). data_row i t rn v (coords_of cc v)) (takeWhile (\<lambda>(rn, v). cached cc v) FV)"
    unfolding rows T_eq by (simp add: emitted_append here)
  have c3: "\<forall>r \<in> set (data_rows tr). row_frame_index r \<le> int i"
    unfolding rows_eq using rowsA by fastforce
  have f1: "filter (\<lambda>r. row_frame_index r = int i) (emitted cc A) = []"
    unfolding filter_empty_conv using rowsA by fastforce
  have f2: "filter (\<lambda>r. row_frame_index r = int i)
        (map (\<lambda>(rn, v). data_row i t rn v (coords_of cc v)) ys)
      = map (\<lambda>(rn, v). data_row i t rn v (coords_of cc v)) ys" for ys
    by (induction ys) auto
  have c4: "filter (\<lambda>r. row_frame_index r = int i) (data_rows tr)
      = map (\<lambda>(rn, v). data_row i t rn v (coords_of cc v)) (takeWhile (\<lambda>(rn, v). cached cc v) FV)"
    unfolding rows_eq by (simp add: f1 f2)
  from d k0 c1 have c1': "\<exists>rn0 v0 rest k0.
            dropWhile (\<lambda>(rn, v). cached cc v) FV = (rn0, v0) # rest
            \<and> lookup_coords cc v0 = Inl k0 \<and> err = Some (KeyError k0)"
    by blast
  from c1' c2 c3 c4 show ?thesis unfolding cc_def FV_def t_def by blast
qed

lemmas row_defs = rows_of_frame_def coords_of_def lookup_coords_def cached_def frame_values_def
  region_names_def row_before_def


theorem rows_follow_order_witness:
  "map_of (steps (odb_of [demo_frame 0, demo_frame 1]))
      (step_name (plain_cfg\<lparr>node_sets := Some [''B'', ''A'']\<rparr>))
     = Some \<lparr>frames = [demo_frame 0, demo_frame 1]\<rparr>
   \<and> requested_regions (rootAssembly (odb_of [demo_frame 0, demo_frame 1]))
        (plain_cfg\<lparr>node_sets := Some [''B'', ''A'']\<rparr>)
       = Inr (Some [NodeSet ''B'' [(''PART-1'', 8)], NodeSet ''A'' [(''PART-1'', 7)]])
   \<and> distinct (region_names (Some [NodeSet ''B'' [(''PART-1'', 8)], NodeSet ''A'' [(''PART-1'', 7)]]))
   \<and> map row_region (data_rows (snd (export_temperatures posix (odb_of [demo_frame 0, demo_frame 1])
        (plain_cfg\<lparr>node_sets := Some [''B'', ''A'']\<rparr>)))) = [''B'', ''A'', ''B'', ''A'']
   \<and> sorted_wrt (row_before [''B'', ''A''])
        (data_rows (snd (export_temperatures posix (odb_of [demo_frame 0, demo_frame 1])
          (plain_cfg\<lparr>node_sets := Some [''B'', ''A'']\<rparr>))))"
proof -
  let ?fs = "[demo_frame 0, demo_frame 1]"
  let ?cfg = "plain_cfg\<lparr>node_sets := Some [''B'', ''A'']\<rparr>"
  let ?rs = "[NodeSet ''B'' [(''PART-1'', 8)], NodeSet ''A'' [(''PART-1'', 7)]]"
  let ?run = "export_temperatures posix (odb_of ?fs) ?cfg"
  have h1: "map_of (steps (odb_of ?fs)) (step_name ?cfg) = Some \<lparr>frames = ?fs\<rparr>"
    by (simp add: odb_of_def plain_cfg_def)
  have h2: "requested_regions (rootAssembly (odb_of ?fs)) ?cfg = Inr (Some ?rs)"
    by (simp add: requested_regions_def plain_cfg_def odb_of_def demo_assembly_def)
  have names: "region_names (Some ?rs) = [''B'', ''A'']" by (simp add: region_names_def)
  have h3: "distinct (region_names (Some ?rs))" unfolding names by simp
  have ev: "map row_region (data_rows (snd ?run)) = [''B'', ''A'', ''B'', ''A'']"
    by (simp add: demo_defs2 run_defs)
  from rows_follow_frame_then_region_order [OF h1 h2 h3 export_pair]
  have "sorted_wrt (row_before [''B'', ''A'']) (data_rows (snd ?run))"
    unfolding names by blast
  with h1 h2 h3 ev show ?thesis by simp
qed

theorem missing_coordinate_witness:
  "map_of (steps stray_odb) (step_name (plain_cfg\<lparr>node_sets := Some [''S'']\<rparr>))
     = Some \<lparr>frames = [demo_frame 0, demo_frame 1]\<rparr>
   \<and> 0 \<in> set (read_frames (snd (export_temperatures posix stray_odb
          (plain_cfg\<lparr>node_sets := Some [''S'']\<rparr>))))
   \<and> \<not> cached (build_coordinate_cache (map snd (instances (rootAssembly stray_odb))))
         \<lparr>instance_name = ''PART-1'', nodeLabel = 99, data = 300\<rparr>
   \<and> fst (export_temperatures posix stray_odb (plain_cfg\<lparr>node_sets := Some [''S'']\<rparr>))
       = Some (KeyError (KInt 99))
   \<and> filter (\<lambda>r. row_frame_index r = int 0)
        (data_rows (snd (export_temperatures posix stray_odb
          (plain_cfg\<lparr>node_sets := Some [''S'']\<rparr>))))
       = [[CInt 0, CFloat 0, CStr ''S'', CStr ''PART-1'', CInt 7,
           CFloat 1, CFloat 2, CFloat 3, CFloat 300]]"
proof -
  let ?cfg = "plain_cfg\<lparr>node_sets := Some [''S'']\<rparr>"
  let ?S = "NodeSet ''S'' [(''PART-1'', 7), (''PART-1'', 99), (''PART-1'', 8)]"
  let ?run = "export_temperatures posix stray_odb ?cfg"
  let ?cc = "build_coordinate_cache (map snd (instances (rootAssembly stray_odb)))"
  let ?v = "\<lparr>instance_name = ''PART-1'', nodeLabel = 99, data = 300\<rparr>"
  let ?vals = "[\<lparr>instance_name = ''PART-1'', nodeLabel = 7, data = 300\<rparr>, ?v,
                \<lparr>instance_name = ''PART-1'', nodeLabel = 8, data = 300\<rparr>]"
  have h1: "map_of (steps stray_odb) (step_name ?cfg) = Some \<lparr>frames = [demo_frame 0, demo_frame 1]\<rparr>"
    by (simp add: stray_odb_def plain_cfg_def)
  have h2: "requested_regions (rootAssembly stray_odb) ?cfg = Inr (Some [?S])"
    by (simp add: requested_regions_def plain_cfg_def stray_odb_def)
  have h4: "0 \<in> set (read_frames (snd ?run))"
    by (simp add: stray_odb_def demo_defs2 run_defs)
  have h5: "map_of (fieldOutputs (frames \<lparr>frames = [demo_frame 0, demo_frame 1]\<rparr> ! 0))
              (field_variable ?cfg) = Some (demo_field 300)"
    by (simp add: demo_frame_def plain_cfg_def)
  have h6: "(''S'', ?vals) \<in> set (region_iter (Some [?S]) (demo_field 300))"
    by (simp add: region_iter_def demo_field_def)
  have h7: "?v \<in> set ?vals" by simp
  have h8: "\<not> cached ?cc ?v"
    by (simp add: stray_odb_def demo_assembly_def row_defs build_coordinate_cache_def)
  have ev: "fst ?run = Some (KeyError (KInt 99))"
    by (simp add: stray_odb_def demo_defs2 run_defs)
  from missing_coordinate_aborts [OF h1 h2 export_pair h4 h5 h6 h7 h8]
  have "filter (\<lambda>r. row_frame_index r = int 0) (data_rows (snd ?run))
         = map (\<lambda>(rn, v). data_row 0 (frameValue (frames \<lparr>frames = [demo_frame 0, demo_frame 1]\<rparr> ! 0)) rn v
                  (coords_of ?cc v))
             (takeWhile (\<lambda>(rn, v). cached ?cc v) (frame_values (Some [?S]) (demo_field 300)))"
    by blast
  also have "\<dots> = [[CInt 0, CFloat 0, CStr ''S'', CStr ''PART-1'', CInt 7,
           CFloat 1, CFloat 2, CFloat 3, CFloat 300]]"
    by (simp add: stray_odb_def demo_defs2 row_defs build_coordinate_cache_def region_iter_def data_row_def)
  finally show ?thesis using h1 h4 h8 ev by simp
qed

section \<open>Split mode: sinks are created on the first row\<close>

lemma safe_name_eq:
  "safe_name sp n = map (\<lambda>c. if c = sp \<or> c = CHR '' '' then CHR ''_'' else c) n"
  by (auto simp: safe_name_def)

lemma set_first_seen [simp]: "set (first_seen xs) = set xs"
  by (induction xs) auto

lemma first_seen_snoc:
  "first_seen (xs @ [x]) = (if x \<in> set xs then first_seen xs else first_seen xs @ [x])"
  by (induction xs) auto

lemma watch_run_snoc: "watch_run path hdr (tr @ [ev]) = watch_step path hdr (watch_run path hdr tr) ev"
  by (simp add: watch_run_def)

lemma watch_run_append:
  "watch_run path hdr (tr @ es) = foldl (watch_step path hdr) (watch_run path hdr tr) es"
  by (simp add: watch_run_def)

lemma split_inv_emit:
  assumes "split_inv (\<lambda>n. base @ ''__'' @ safe_name sp n @ ext) hdr s"
    and "get_writer (SplitWriter sp base ext hdr) rn s = (w, s1)"
  shows "split_inv (\<lambda>n. base @ ''__'' @ safe_name sp n @ ext) hdr
           (s1\<lparr>trace := trace s1 @ [WriteRow w (data_row fi t rn v c)]\<rparr>)"
proof (cases "map_of (writer_handles s) rn")
  case None
  then have notin: "rn \<notin> set (map fst (writer_handles s))"
    by (simp add: map_of_eq_None_iff)
  from assms(2) None have s1: "s1 = s\<lparr>next_handle := Suc (next_handle s),
      trace := trace s @ [OpenFile w (base @ ''__'' @ safe_name sp rn @ ext), WriteHeader w hdr],
      writer_handles := writer_handles s @ [(rn, w)]\<rparr>"
    by (auto simp: open_writer_def Let_def)
  from assms(1) notin have "rn \<notin> set (map row_region (data_rows (trace s)))"
    unfolding split_inv_def by (metis set_first_seen)
  with assms(1) None show ?thesis
    unfolding split_inv_def s1
    by (simp add: watch_run_append data_rows_append opened_files_append first_seen_snoc)
next
  case (Some h)
  with assms(2) have s1: "s1 = s" "w = h" by simp_all
  from Some have "rn \<in> set (map fst (writer_handles s))"
    by (metis map_of_eq_None_iff option.distinct(1) set_map)
  with assms(1) have "rn \<in> set (map row_region (data_rows (trace s)))"
    unfolding split_inv_def by (metis set_first_seen)
  with assms(1) Some show ?thesis
    unfolding split_inv_def s1
    by (simp add: watch_run_append data_rows_append opened_files_append first_seen_snoc)
qed

lemma split_inv_fetch:
  "split_inv path hdr s \<Longrightarrow> split_inv path hdr (s\<lparr>trace := trace s @ [ReadField i]\<rparr>)"
  by (simp add: split_inv_def watch_run_append data_rows_append opened_files_append)

lemma closes_quiet:
  "foldl (watch_step path hdr) (Idle sinks) (map (\<lambda>(n, h). CloseFile h) xs @ [CloseOdb]) = Idle sinks
   \<and> opened_files (map (\<lambda>(n, h). CloseFile h) xs @ [CloseOdb]) = []
   \<and> data_rows (map (\<lambda>(n, h). CloseFile h) xs @ [CloseOdb]) = []"
  by (induction xs) auto

lemma file_system_replay: "file_system tr = snd (replay tr)"
  by (simp add: file_system_def replay_def)

lemma replay_append: "replay (tr @ es) = foldl (\<lambda>st ev. fs_step ev st) (replay tr) es"
  by (simp add: replay_def)

lemma fs_inv_open:
  "fs_inv hdr st \<Longrightarrow> fs_inv hdr (fs_step (WriteHeader h hdr) (fs_step (OpenFile h p) st))"
  by (cases st) (auto simp: fs_inv_def)

lemma fs_inv_row: "fs_inv hdr st \<Longrightarrow> fs_inv hdr (fs_step (WriteRow h r) st)"
proof (cases st)
  case (Pair hm files)
  assume inv: "fs_inv hdr st"
  show ?thesis
  proof (cases "hm h")
    case None
    with inv Pair show ?thesis by simp
  next
    case (Some p)
    with inv Pair have "\<exists>rest. files p = Some (hdr # rest)"
      unfolding fs_inv_def by simp
    then obtain rest where rest: "files p = Some (hdr # rest)" by blast
    with Pair Some have "fs_step (WriteRow h r) st = (hm, files(p \<mapsto> hdr # rest @ [r]))"
      by simp
    with inv Pair show ?thesis by (auto simp: fs_inv_def)
  qed
qed

lemma fs_step_ReadField [simp]: "fs_step (ReadField i) st = st"
  by (cases st) simp

lemma get_writer_trace:
  "closure_header hdr gw \<Longrightarrow> get_writer gw n s = (w, s1) \<Longrightarrow>
     trace s1 = trace s \<or> (\<exists>p. trace s1 = trace s @ [OpenFile w p, WriteHeader w hdr])"
  by (cases gw) (auto simp: open_writer_def Let_def split: option.splits)

lemma fs_inv_emit:
  assumes "closure_header hdr gw" "get_writer gw n s = (w, s1)" "fs_inv hdr (replay (trace s))"
  shows "fs_inv hdr (replay (trace s1 @ [WriteRow w r]))"
  using get_writer_trace [OF assms(1,2)]
proof
  assume "trace s1 = trace s"
  with assms(3) show ?thesis by (simp add: replay_append fs_inv_row)
next
  assume "\<exists>p. trace s1 = trace s @ [OpenFile w p, WriteHeader w hdr]"
  then obtain p where "trace s1 = trace s @ [OpenFile w p, WriteHeader w hdr]" by blast
  with assms(3) show ?thesis by (simp add: replay_append fs_inv_row fs_inv_open)
qed

lemma fs_inv_finally: "fs_inv hdr (replay (trace s)) \<Longrightarrow> fs_inv hdr (replay (finally_block s))"
proof -
  have "foldl (\<lambda>st ev. fs_step ev st) st (map (\<lambda>(n, h). CloseFile h) xs @ [CloseOdb]) = st"
    for st :: "(nat \<rightharpoonup> string) \<times> (string \<rightharpoonup> row list)" and xs :: "(string \<times> nat) list"
    by (induction xs arbitrary: st) (auto simp: split_paired_all)
  then show "fs_inv hdr (replay (trace s)) \<Longrightarrow> fs_inv hdr (replay (finally_block s))"
    by (simp add: finally_block_def replay_append)
qed

lemma make_get_writer_fs_inv:
  "make_get_writer e cfg hdr \<lparr>writer_handles = [], next_handle = 0, trace = [OpenOdb p]\<rparr> = (gw, s1)
     \<Longrightarrow> fs_inv hdr (replay (trace s1))"
  by (auto simp: make_get_writer_def open_writer_def Let_def fs_inv_def replay_def
           split: if_splits prod.splits)

text \<open>Every file a run leaves behind starts with the header.\<close>

lemma export_files_start_with_header:
  assumes "export_temperatures e archive cfg = (err, tr)"
  shows "fs_inv (header_row (field_variable cfg)) (replay tr)"
proof (cases "frame_stride cfg < 1 \<or> map_of (steps archive) (step_name cfg) = None
         \<or> (\<exists>x. requested_regions (rootAssembly archive) cfg = Inl x)")
  case True
  with assms have "tr = [] \<or> tr = [OpenOdb (odb_path cfg)]"
    by (auto simp: export_temperatures_def Let_def split: if_splits option.splits sum.splits)
  then show ?thesis by (auto simp: fs_inv_def replay_def)
next
  case False
  then obtain stp regions where h: "1 \<le> frame_stride cfg"
    "map_of (steps archive) (step_name cfg) = Some stp"
    "requested_regions (rootAssembly archive) cfg = Inr regions"
    by (cases "requested_regions (rootAssembly archive) cfg") auto
  let ?hdr = "header_row (field_variable cfg)"
  from export_run [OF h assms] obtain gw s1 s2 where
    mk: "make_get_writer e cfg ?hdr
       \<lparr>writer_handles = [], next_handle = 0, trace = [OpenOdb (odb_path cfg)]\<rparr> = (gw, s1)"
    and run: "exec cfg gw (build_coordinate_cache (map snd (instances (rootAssembly archive))))
           (plan cfg regions 0 (frames stp)) s1 = (err, s2)"
    and tr: "tr = finally_block s2"
    by blast
  from make_get_writer_headers_ok [OF mk] have gw: "closure_header ?hdr gw" by simp
  have "fs_inv ?hdr (replay (trace s2))"
  proof (rule exec_invariant [OF run, where P = "\<lambda>s. fs_inv ?hdr (replay (trace s))"])
    show "fs_inv ?hdr (replay (trace s1))" by (rule make_get_writer_fs_inv [OF mk])
  next
    fix s i assume "fs_inv ?hdr (replay (trace s))"
    then show "fs_inv ?hdr (replay (trace (s\<lparr>trace := trace s @ [ReadField i]\<rparr>)))"
      by (simp add: replay_append)
  next
    fix s fi t rn v c w sa
    assume "fs_inv ?hdr (replay (trace s))" "get_writer gw rn s = (w, sa)"
    from fs_inv_emit [OF gw this(2,1)]
    show "fs_inv ?hdr (replay (trace (sa\<lparr>trace := trace sa @ [WriteRow w (data_row fi t rn v c)]\<rparr>)))"
      by simp
  qed
  then show ?thesis unfolding tr by (rule fs_inv_finally)
qed

text \<open>
  Claim C5. In split mode the files opened are, in order, the sink paths of the regions
  in the order of their first data row: a region without any row gets no file. Each file
  is opened immediately before its header and the first row of its region, at the path
  made of the base path, \<open>__\<close>, the sanitized region name and the extension (\<open>.csv\<close>
  when the base path has none), and later rows of the region go to that same sink. Every
  file the run leaves behind starts with the header.
\<close>

theorem split_sinks_are_lazy:
  assumes "split_by_node_set cfg"
    and "export_temperatures e archive cfg = (err, tr)"
  shows "opened_files tr
           = map (sink_path e (output_csv cfg)) (first_seen (map row_region (data_rows tr)))
     \<and> (\<exists>sinks. watch_run (sink_path e (output_csv cfg)) (header_row (field_variable cfg)) tr
                  = Idle sinks
           \<and> map fst sinks = first_seen (map row_region (data_rows tr)))
     \<and> (\<forall>p rows. file_system tr p = Some rows \<longrightarrow>
           (\<exists>rest. rows = header_row (field_variable cfg) # rest))"
proof -
  let ?hdr = "header_row (field_variable cfg)"
  let ?path = "sink_path e (output_csv cfg)"
  from export_files_start_with_header [OF assms(2)]
  have files: "\<forall>p rows. file_system tr p = Some rows \<longrightarrow> (\<exists>rest. rows = ?hdr # rest)"
    by (simp add: fs_inv_def file_system_replay)
  have main: "opened_files tr = map ?path (first_seen (map row_region (data_rows tr)))
     \<and> (\<exists>sinks. watch_run ?path ?hdr tr = Idle sinks
           \<and> map fst sinks = first_seen (map row_region (data_rows tr)))"
  proof (cases "frame_stride cfg < 1 \<or> map_of (steps archive) (step_name cfg) = None
         \<or> (\<exists>x. requested_regions (rootAssembly archive) cfg = Inl x)")
    case True
    with assms have "tr = [] \<or> tr = [OpenOdb (odb_path cfg)]"
      by (auto simp: export_temperatures_def Let_def split: if_splits option.splits sum.splits)
    then show ?thesis by (auto simp: watch_run_def)
  next
    case False
    then obtain stp regions where h: "1 \<le> frame_stride cfg"
      "map_of (steps archive) (step_name cfg) = Some stp"
      "requested_regions (rootAssembly archive) cfg = Inr regions"
      by (cases "requested_regions (rootAssembly archive) cfg") auto
    from export_run [OF h assms(2)] obtain gw s1 s2 where
      mk: "make_get_writer e cfg ?hdr
         \<lparr>writer_handles = [], next_handle = 0, trace = [OpenOdb (odb_path cfg)]\<rparr> = (gw, s1)"
      and run: "exec cfg gw (build_coordinate_cache (map snd (instances (rootAssembly archive))))
             (plan cfg regions 0 (frames stp)) s1 = (err, s2)"
      and tr: "tr = finally_block s2"
      by blast
    obtain base ext where sp: "splitext e (output_csv cfg) = (base, ext)"
      by (cases "splitext e (output_csv cfg)")
    define ext' where "ext' = (if ext = [] then ''.csv'' else ext)"
    have path: "?path = (\<lambda>n. base @ ''__'' @ safe_name (sep e) n @ ext')"
      by (rule ext) (simp add: sink_path_def sp safe_name_eq ext'_def)
    from mk assms(1) sp have gw: "gw = SplitWriter (sep e) base ext' ?hdr"
      and s1: "s1 = \<lparr>writer_handles = [], next_handle = 0, trace = [OpenOdb (odb_path cfg)]\<rparr>"
      by (auto simp: make_get_writer_def ext'_def)
    have "split_inv ?path ?hdr s2"
    proof (rule exec_invariant [OF run, where P = "split_inv ?path ?hdr"])
      show "split_inv ?path ?hdr s1"
        by (simp add: s1 split_inv_def watch_run_def)
    next
      fix s i assume "split_inv ?path ?hdr s"
      then show "split_inv ?path ?hdr (s\<lparr>trace := trace s @ [ReadField i]\<rparr>)"
        by (rule split_inv_fetch)
    next
      fix s fi t rn v c w sa
      assume "split_inv ?path ?hdr s" "get_writer gw rn s = (w, sa)"
      then show "split_inv ?path ?hdr (sa\<lparr>trace := trace sa @ [WriteRow w (data_row fi t rn v c)]\<rparr>)"
        unfolding path gw by (rule split_inv_emit)
    qed
    then have "watch_run ?path ?hdr tr = Idle (writer_handles s2)
       \<and> opened_files tr = map ?path (first_seen (map row_region (data_rows tr)))
       \<and> map fst (writer_handles s2) = first_seen (map row_region (data_rows tr))"
      unfolding tr split_inv_def finally_block_def
      using closes_quiet [of ?path ?hdr "writer_handles s2" "writer_handles s2"]
      by (simp add: watch_run_append opened_files_append data_rows_append)
    then show ?thesis by blast
  qed
  with files show ?thesis by blast
qed

theorem split_sinks_witness:
  "split_by_node_set sensors_cfg
   \<and> sink_path posix ''out.csv'' ''SENSORS N'' = ''out__SENSORS_N.csv''
   \<and> sink_path posix ''out'' ''SENSORS N'' = ''out__SENSORS_N.csv''
   \<and> map row_region (data_rows (snd (export_temperatures posix sensors_odb sensors_cfg)))
       = [''SENSORS N'', ''SENSORS N'']
   \<and> opened_files (snd (export_temperatures posix sensors_odb sensors_cfg))
       = [''out__SENSORS_N.csv'']"
proof -
  let ?run = "export_temperatures posix sensors_odb sensors_cfg"
  have h1: "split_by_node_set sensors_cfg" by (simp add: sensors_cfg_def)
  have p1: "sink_path posix ''out.csv'' ''SENSORS N'' = ''out__SENSORS_N.csv''"
    by (simp add: sink_path_def posix_def posix_splitext_def rfind_def)
  have p2: "sink_path posix ''out'' ''SENSORS N'' = ''out__SENSORS_N.csv''"
    by (simp add: sink_path_def posix_def posix_splitext_def rfind_def)
  have rows: "map row_region (data_rows (snd ?run)) = [''SENSORS N'', ''SENSORS N'']"
    by (simp add: sensors_odb_def sensors_cfg_def demo_defs2 run_defs posix_splitext_def rfind_def
          safe_name_def)
  have out: "output_csv sensors_cfg = ''out.csv''" by (simp add: sensors_cfg_def plain_cfg_def)
  from split_sinks_are_lazy [OF h1 export_pair]
  have "opened_files (snd ?run)
      = map (sink_path posix (output_csv sensors_cfg)) (first_seen (map row_region (data_rows (snd ?run))))"
    by blast
  then have "opened_files (snd ?run) = [''out__SENSORS_N.csv'']"
    unfolding rows out by (simp add: p1)
  with h1 p1 p2 rows show ?thesis by simp
qed

section \<open>What the \<open>finally\<close> block releases\<close>

lemma opened_handles_append: "opened_handles (xs @ ys) = opened_handles xs @ opened_handles ys"
  by (induction xs rule: opened_handles.induct) simp_all

lemma closed_handles_append: "closed_handles (xs @ ys) = closed_handles xs @ closed_handles ys"
  by (induction xs rule: closed_handles.induct) simp_all

lemma get_writer_handles:
  "get_writer gw n s = (w, s1) \<Longrightarrow>
   opened_handles (trace s) = map snd (writer_handles s) \<and> closed_handles (trace s) = [] \<Longrightarrow>
   opened_handles (trace s1) = map snd (writer_handles s1) \<and> closed_handles (trace s1) = []"
  by (cases gw)
     (auto simp: open_writer_def Let_def opened_handles_append closed_handles_append
           split: option.splits)

text \<open>Once the \<open>try\<close> block is entered, every file opened is closed, in the order of
  opening, and the archive is closed last, whether the loop raised or not.\<close>

lemma try_block_releases_everything:
  assumes "1 \<le> frame_stride cfg"
    and "map_of (steps archive) (step_name cfg) = Some stp"
    and "requested_regions (rootAssembly archive) cfg = Inr regions"
    and "export_temperatures e archive cfg = (err, tr)"
  shows "closed_handles tr = opened_handles tr \<and> last tr = CloseOdb"
proof -
  let ?P = "\<lambda>s. opened_handles (trace s) = map snd (writer_handles s) \<and> closed_handles (trace s) = []"
  from export_run [OF assms] obtain gw s1 s2 where
    mk: "make_get_writer e cfg (header_row (field_variable cfg))
       \<lparr>writer_handles = [], next_handle = 0, trace = [OpenOdb (odb_path cfg)]\<rparr> = (gw, s1)"
    and run: "exec cfg gw (build_coordinate_cache (map snd (instances (rootAssembly archive))))
           (plan cfg regions 0 (frames stp)) s1 = (err, s2)"
    and tr: "tr = finally_block s2"
    by blast
  have "?P s2"
  proof (rule exec_invariant [OF run, where P = ?P])
    from mk show "?P s1"
      by (auto simp: make_get_writer_def open_writer_def Let_def split: if_splits prod.splits)
  next
    fix s i assume "?P s"
    then show "?P (s\<lparr>trace := trace s @ [ReadField i]\<rparr>)"
      by (simp add: opened_handles_append closed_handles_append)
  next
    fix s fi t rn v c w sa
    assume "?P s" "get_writer gw rn s = (w, sa)"
    from get_writer_handles [OF this(2,1)]
    show "?P (sa\<lparr>trace := trace sa @ [WriteRow w (data_row fi t rn v c)]\<rparr>)"
      by (simp add: opened_handles_append closed_handles_append)
  qed
  moreover have "closed_handles (map (\<lambda>(n, h). CloseFile h) xs) = map snd xs
      \<and> opened_handles (map (\<lambda>(n, h). CloseFile h) xs) = []" for xs :: "(string \<times> nat) list"
    by (induction xs) auto
  ultimately show ?thesis
    unfolding tr finally_block_def
    by (simp add: opened_handles_append closed_handles_append)
qed

end
